theory Spec2Isabelle
  imports Main
begin

section \<open>The public interface of the engine (include/mxnet/engine.h)\<close>

text \<open>
  \<^verbatim>\<open>engine::VarHandle\<close> and \<^verbatim>\<open>engine::OprHandle\<close> are pointers to structures the header
  only declares. A handle is used for its identity alone, so it is a number here.
\<close>

type_synonym VarHandle = nat
type_synonym OprHandle = nat

text \<open>\<^verbatim>\<open>enum class FnProperty\<close>, in the order of the declaration.\<close>

datatype FnProperty = kNormal | kCopyFromGPU | kCopyToGPU | kAsync

text \<open>The value of each enumerator: no initialiser is given, so they count from zero.\<close>

fun FnProperty_value :: "FnProperty \<Rightarrow> nat" where
  "FnProperty_value kNormal = 0"
| "FnProperty_value kCopyFromGPU = 1"
| "FnProperty_value kCopyToGPU = 2"
| "FnProperty_value kAsync = 3"

text \<open>
  A C++ function returning \<^verbatim>\<open>void\<close> acts on the rest of the program only: it is a
  transformer of a world \<open>'w\<close> that either returns normally (\<open>Inr\<close> the new world) or
  leaves by an exception (\<open>Inl\<close>).
\<close>

type_synonym ('x, 'w) effect = "'w \<Rightarrow> 'x + 'w"

text \<open>Two statements in sequence: the second runs only when the first returns.\<close>

definition and_then :: "('x, 'w) effect \<Rightarrow> ('x, 'w) effect \<Rightarrow> ('x, 'w) effect" where
  "and_then f g = (\<lambda>w. case f w of Inl x \<Rightarrow> Inl x | Inr w1 \<Rightarrow> g w1)"

text \<open>
  \<^verbatim>\<open>class Engine::CallbackOnComplete\<close>: the three private members \<^verbatim>\<open>callback_\<close>,
  \<^verbatim>\<open>engine_\<close> and \<^verbatim>\<open>param_\<close> (a name cannot end in an underscore here, so each takes
  the prefix \<open>cb_\<close> instead). \<open>'e\<close> stands for \<^verbatim>\<open>Engine*\<close> and \<open>'p\<close> for \<^verbatim>\<open>void*\<close>.
\<close>

record ('e, 'p, 'x, 'w) CallbackOnComplete =
  cb_callback :: "'e \<Rightarrow> 'p \<Rightarrow> ('x, 'w) effect"
  cb_engine :: 'e
  cb_param :: 'p

text \<open>\<^verbatim>\<open>operator()() const { (*callback_)(engine_, param_); }\<close>\<close>

definition invoke :: "('e, 'p, 'x, 'w) CallbackOnComplete \<Rightarrow> ('x, 'w) effect" where
  "invoke cb = (cb_callback cb) (cb_engine cb) (cb_param cb)"

text \<open>
  \<^verbatim>\<open>SyncFn = std::function<void(RunContext)>\<close> and
  \<^verbatim>\<open>AsyncFn = std::function<void(RunContext, CallbackOnComplete)>\<close>. \<^verbatim>\<open>RunContext\<close> and
  \<^verbatim>\<open>Context\<close> come from base.h; they are the type parameters \<open>'r\<close> and \<open>'c\<close>.
\<close>

type_synonym ('r, 'x, 'w) SyncFn = "'r \<Rightarrow> ('x, 'w) effect"
type_synonym ('r, 'e, 'p, 'x, 'w) AsyncFn =
  "'r \<Rightarrow> ('e, 'p, 'x, 'w) CallbackOnComplete \<Rightarrow> ('x, 'w) effect"

text \<open>
  \<^verbatim>\<open>Engine::CreateCallback\<close>. The receiver \<^verbatim>\<open>this\<close> is the first argument.
\<close>

definition CreateCallback ::
  "'e \<Rightarrow> ('e \<Rightarrow> 'p \<Rightarrow> ('x, 'w) effect) \<Rightarrow> 'p \<Rightarrow> ('e, 'p, 'x, 'w) CallbackOnComplete" where
  "CreateCallback this callback param =
     \<lparr>cb_callback = callback, cb_engine = this, cb_param = param\<rparr>"

text \<open>
  \<^verbatim>\<open>Engine::PushSync\<close>. \<^verbatim>\<open>PushAsync\<close> is pure virtual: the implementation of the receiver
  is the first argument, and whatever it does with the call is the result \<open>'a\<close>.
\<close>

definition PushSync ::
  "(('r, 'e, 'p, 'x, 'w) AsyncFn \<Rightarrow> 'c \<Rightarrow> VarHandle list \<Rightarrow> VarHandle list \<Rightarrow> FnProperty \<Rightarrow> 'a)
   \<Rightarrow> ('r, 'x, 'w) SyncFn \<Rightarrow> 'c \<Rightarrow> VarHandle list \<Rightarrow> VarHandle list \<Rightarrow> FnProperty \<Rightarrow> 'a" where
  "PushSync PushAsync exec_fn exec_ctx const_vars mutable_vars prop =
     PushAsync (\<lambda>ctx on_complete. and_then (exec_fn ctx) (invoke on_complete))
       exec_ctx const_vars mutable_vars prop"

text \<open>
  The declarations of \<^verbatim>\<open>NewOperator\<close>, \<^verbatim>\<open>PushAsync\<close> and \<^verbatim>\<open>PushSync\<close> end in
  \<^verbatim>\<open>FnProperty prop = FnProperty::kNormal\<close>. A call through the interface either gives the
  argument or leaves it out; the compiler fills in the default at the call.
\<close>

definition prop_argument :: "FnProperty option \<Rightarrow> FnProperty" where
  "prop_argument given = (case given of None \<Rightarrow> kNormal | Some prop \<Rightarrow> prop)"

definition call_NewOperator ::
  "('f \<Rightarrow> VarHandle list \<Rightarrow> VarHandle list \<Rightarrow> FnProperty \<Rightarrow> 'a)
   \<Rightarrow> 'f \<Rightarrow> VarHandle list \<Rightarrow> VarHandle list \<Rightarrow> FnProperty option \<Rightarrow> 'a" where
  "call_NewOperator NewOperator fn const_vars mutable_vars given =
     NewOperator fn const_vars mutable_vars (prop_argument given)"

definition call_PushAsync ::
  "('f \<Rightarrow> 'c \<Rightarrow> VarHandle list \<Rightarrow> VarHandle list \<Rightarrow> FnProperty \<Rightarrow> 'a)
   \<Rightarrow> 'f \<Rightarrow> 'c \<Rightarrow> VarHandle list \<Rightarrow> VarHandle list \<Rightarrow> FnProperty option \<Rightarrow> 'a" where
  "call_PushAsync PushAsync exec_fun exec_ctx const_vars mutable_vars given =
     PushAsync exec_fun exec_ctx const_vars mutable_vars (prop_argument given)"

definition call_PushSync ::
  "(('r, 'e, 'p, 'x, 'w) AsyncFn \<Rightarrow> 'c \<Rightarrow> VarHandle list \<Rightarrow> VarHandle list \<Rightarrow> FnProperty \<Rightarrow> 'a)
   \<Rightarrow> ('r, 'x, 'w) SyncFn \<Rightarrow> 'c \<Rightarrow> VarHandle list \<Rightarrow> VarHandle list \<Rightarrow> FnProperty option \<Rightarrow> 'a" where
  "call_PushSync PushAsync exec_fn exec_ctx const_vars mutable_vars given =
     PushSync PushAsync exec_fn exec_ctx const_vars mutable_vars (prop_argument given)"

subsection \<open>The wrapper as the specification words it\<close>

text \<open>
  The specification's wording of the function that \<^verbatim>\<open>PushSync\<close> hands to \<^verbatim>\<open>PushAsync\<close>:
  run \<open>fn\<close> on the run context; when it has returned, invoke the completion callback.
\<close>

definition sync_wrapper_spec :: "('r, 'x, 'w) SyncFn \<Rightarrow> ('r, 'e, 'p, 'x, 'w) AsyncFn" where
  "sync_wrapper_spec fn =
     (\<lambda>ctx on_complete w.
        case fn ctx w of
          Inl x \<Rightarrow> Inl x
        | Inr w1 \<Rightarrow> cb_callback on_complete (cb_engine on_complete) (cb_param on_complete) w1)"

text \<open>
  An implementation of \<^verbatim>\<open>PushAsync\<close> that does nothing but hand back the function it was
  given, and a world that counts the completion signals it has received next to the
  state \<open>'w\<close> the pushed function works on.
\<close>

definition pushed_function ::
  "'f \<Rightarrow> 'c \<Rightarrow> VarHandle list \<Rightarrow> VarHandle list \<Rightarrow> FnProperty \<Rightarrow> 'f" where
  "pushed_function exec_fun exec_ctx const_vars mutable_vars prop = exec_fun"

definition count_signal :: "'e \<Rightarrow> 'p \<Rightarrow> ('x, 'w \<times> nat) effect" where
  "count_signal e p = (\<lambda>(w, n). Inr (w, Suc n))"

definition on_state :: "('r \<Rightarrow> 'w \<Rightarrow> 'w) \<Rightarrow> ('r, 'x, 'w \<times> nat) SyncFn" where
  "on_state f = (\<lambda>ctx (w, n). Inr (f ctx w, n))"

section \<open>The scheduler behind the interface\<close>

text \<open>
  The header declares \<^verbatim>\<open>NewVariable\<close>, \<^verbatim>\<open>NewOperator\<close>, \<^verbatim>\<open>DeleteOperator\<close>, \<^verbatim>\<open>Push\<close>,
  \<^verbatim>\<open>PushAsync\<close>, \<^verbatim>\<open>DeleteVariable\<close> and \<^verbatim>\<open>WaitForVar\<close> pure virtual, and the function a
  completion handle is bound to is the engine's own. Their implementation is part of the
  repository but not of the sources at hand, so this section follows the specification:
  the variable table (4.1), the operator registry (4.2), the dependency scheduler (4.3),
  the completion callback (4.5), deletion (4.6) and waiting (4.7).

  The state holds what the scheduler keeps. The body of a pushed function runs on a
  worker, outside this state; its one effect on the scheduler is the invocation of the
  completion handle it was given. The execution context only selects a worker queue and
  the bounds on the queues (4.4) delay the beginning of an execution, which any run below
  may do as well. An invocation is named by its position in submission order.
\<close>

text \<open>Modelled from the spec: the access mode of a queue entry (section 3; the engine's
  variable structure is only declared in the header).\<close>

datatype access = ReadAccess | WriteAccess

text \<open>
  Modelled from the spec: the life of an invocation (sections 3 and 4.3; the engine's
  operation structure is only declared in the header). It waits for its predecessors, is
  handed to the worker dispatch, runs, and has completed.
\<close>

datatype inv_status = Waiting | Ready | Running | Done

text \<open>
  Modelled from the spec: what an invocation executes (4.1, 4.3, 4.7; absent with the
  scheduler): a pushed function, a registered operator, or one of the two
  pseudo-invocations, the deletion of a variable and the wait for one.
\<close>

datatype work = UserFn | OprFn OprHandle | DisposeVar VarHandle | WaitVar VarHandle

text \<open>Modelled from the spec: the invocation of section 3 (\<^verbatim>\<open>struct Opr\<close> is only declared
  in the header), with its read-set, write-set and scheduling property.\<close>

record invocation =
  inv_const :: "VarHandle list"
  inv_mutable :: "VarHandle list"
  inv_prop :: FnProperty
  inv_work :: work
  inv_status :: inv_status

text \<open>
  Modelled from the spec: the operator descriptor of section 3 and 4.2 (the registry is
  absent), with the mark of 4.2 and the count of its invocations that are outstanding.
\<close>

record operator =
  opr_const :: "VarHandle list"
  opr_mutable :: "VarHandle list"
  opr_prop :: FnProperty
  opr_deleted :: bool
  opr_count :: nat

text \<open>
  Modelled from the spec: the moments the testable properties of section 8 speak of, as an
  observer of the engine sees them, in the order they happen: an invocation handed to the
  worker dispatch, its execution beginning, its completion, the disposal function of a
  deletion being invoked, the caller of a wait being released.
\<close>

datatype event =
    Granted nat
  | Began nat
  | Completed nat
  | Disposed nat VarHandle
  | Released nat

text \<open>Modelled from the spec: the caller contract violations of section 7 that the engine
  reports, and the calls a worker or a callback cannot make.\<close>

datatype error = ContractViolation | InvalidHandle | NotReady | NotRunning | AlreadyCompleted

text \<open>
  Modelled from the spec: the state of the variable table (4.1: per variable a version
  counter, a pending queue in submission order, and whether the token is freed), of the
  scheduler (4.3: the invocations) and of the operator registry (4.2), none of which is
  under src/; and the log of events.
\<close>

record sched =
  next_var :: nat
  version :: "VarHandle \<Rightarrow> nat"
  queue :: "VarHandle \<Rightarrow> (nat \<times> access) list"
  freed :: "VarHandle \<Rightarrow> bool"
  invs :: "invocation list"
  oprs :: "OprHandle \<Rightarrow> operator option"
  next_opr :: nat
  log :: "event list"

text \<open>Modelled from the spec: the engine before any call (no variable, operator or
  invocation; every slot of the variable table at version 0 with an empty queue, 4.1).\<close>

definition init :: sched where
  "init = \<lparr>next_var = 0, version = (\<lambda>v. 0), queue = (\<lambda>v. []), freed = (\<lambda>v. False),
           invs = [], oprs = (\<lambda>h. None), next_opr = 0, log = []\<rparr>"

subsection \<open>Dependency scheduler (4.3)\<close>

text \<open>Modelled from the spec: the entries of a queue "registered strictly earlier" than
  invocation \<open>i\<close> (4.3, steps 1 and 2; the scheduler is absent).\<close>

definition earlier :: "nat \<Rightarrow> (nat \<times> access) list \<Rightarrow> (nat \<times> access) list" where
  "earlier i q = filter (\<lambda>e. fst e < i) q"

text \<open>Modelled from the spec: the writers among the entries of a queue (4.3, step 2).\<close>

definition writers :: "(nat \<times> access) list \<Rightarrow> (nat \<times> access) list" where
  "writers q = filter (\<lambda>e. snd e = WriteAccess) q"

text \<open>
  Modelled from the spec: the wait-count of 4.3, steps 1 to 3 (the scheduler is absent).
  For each variable of the write-set every access registered strictly earlier and still
  pending or active counts, for each variable of the read-set every such writer. The count
  is read off the queues, so the completion of a predecessor, which takes its entries out,
  is what decrements it.
\<close>

definition wait_count :: "sched \<Rightarrow> nat \<Rightarrow> nat" where
  "wait_count s i =
     (\<Sum>v\<leftarrow>inv_mutable (invs s ! i). length (earlier i (queue s v)))
     + (\<Sum>v\<leftarrow>inv_const (invs s ! i). length (writers (earlier i (queue s v))))"

text \<open>Modelled from the spec: the status of invocation \<open>i\<close> changes (4.3).\<close>

definition set_status :: "nat \<Rightarrow> inv_status \<Rightarrow> invocation list \<Rightarrow> invocation list" where
  "set_status i st xs = xs[i := (xs ! i)\<lparr>inv_status := st\<rparr>]"

text \<open>
  Modelled from the spec: "when any invocation's wait-count reaches zero, it is
  dispatched" (4.3). The grant hands a waiting invocation to the worker dispatch.
\<close>

definition grant :: "nat \<Rightarrow> sched \<Rightarrow> sched" where
  "grant i s =
     (if i < length (invs s) \<and> inv_status (invs s ! i) = Waiting \<and> wait_count s i = 0
      then s\<lparr>invs := set_status i Ready (invs s), log := log s @ [Granted i]\<rparr>
      else s)"

text \<open>Modelled from the spec: on a completion the scheduler "promotes newly-unblocked
  waiters" (section 2, 4.3): every waiter is looked at, in submission order.\<close>

definition dispatch_ready :: "sched \<Rightarrow> sched" where
  "dispatch_ready s = foldl (\<lambda>t i. grant i t) s [0..<length (invs s)]"

text \<open>Modelled from the spec: the invocation is appended to the pending queue of each of
  its variables, tagged with its access mode (4.3, step 3).\<close>

definition enqueue ::
  "nat \<Rightarrow> VarHandle list \<Rightarrow> VarHandle list \<Rightarrow> (VarHandle \<Rightarrow> (nat \<times> access) list)
   \<Rightarrow> VarHandle \<Rightarrow> (nat \<times> access) list" where
  "enqueue i cv mv q =
     (\<lambda>v. q v @ (if v \<in> set cv then [(i, ReadAccess)] else [])
               @ (if v \<in> set mv then [(i, WriteAccess)] else []))"

text \<open>
  Modelled from the spec: a push (4.3, steps 3 and 4; \<^verbatim>\<open>Push\<close> and \<^verbatim>\<open>PushAsync\<close> are pure
  virtual in the header). The invocation is enqueued and, when its wait-count is zero,
  handed to the worker dispatch at once.
\<close>

definition push_invocation ::
  "VarHandle list \<Rightarrow> VarHandle list \<Rightarrow> FnProperty \<Rightarrow> work \<Rightarrow> sched \<Rightarrow> sched" where
  "push_invocation cv mv prop w s =
     (let i = length (invs s) in
      grant i
        (s\<lparr>invs := invs s @ [\<lparr>inv_const = cv, inv_mutable = mv, inv_prop = prop,
                              inv_work = w, inv_status = Waiting\<rparr>],
           queue := enqueue i cv mv (queue s)\<rparr>))"

text \<open>
  Modelled from the spec: the deletion manager frees the descriptor of an operator that is
  marked deleted once its invocation count is zero (4.2).
\<close>

definition reclaim :: "OprHandle \<Rightarrow> sched \<Rightarrow> sched" where
  "reclaim h s =
     (case oprs s h of
        None \<Rightarrow> s
      | Some d \<Rightarrow>
          if opr_deleted d \<and> opr_count d = 0
          then s\<lparr>oprs := (oprs s)(h := None)\<rparr>
          else s)"

text \<open>Modelled from the spec: the completion of an invocation of a registered operator
  takes one off the invocation count of its descriptor, and the deletion manager frees the
  descriptor when that was the last one of a marked operator (4.2).\<close>

definition release_operator :: "work \<Rightarrow> sched \<Rightarrow> sched" where
  "release_operator w s =
     (case w of
        OprFn h \<Rightarrow>
          (case oprs s h of
             None \<Rightarrow> s
           | Some d \<Rightarrow> reclaim h (s\<lparr>oprs := (oprs s)(h \<mapsto> d\<lparr>opr_count := opr_count d - 1\<rparr>)\<rparr>))
      | _ \<Rightarrow> s)"

text \<open>
  Modelled from the spec: the completion of an invocation (4.3). Its entries leave the
  queues of its variables, each variable it wrote advances its version, and the waiters
  whose count has reached zero are dispatched.
\<close>

definition complete_inv :: "nat \<Rightarrow> sched \<Rightarrow> sched" where
  "complete_inv i s =
     dispatch_ready
       (release_operator (inv_work (invs s ! i))
          (s\<lparr>invs := set_status i Done (invs s),
             queue := (\<lambda>v. filter (\<lambda>e. fst e \<noteq> i) (queue s v)),
             version := (\<lambda>v. if v \<in> set (inv_mutable (invs s ! i))
                              then Suc (version s v) else version s v),
             log := log s @ [Completed i]\<rparr>))"

subsection \<open>Completion callback (4.5)\<close>

text \<open>
  Modelled from the spec: the function the engine binds into the handle of invocation
  \<open>i\<close>. It completes an invocation that is running, and rejects every other call: one
  for an invocation that has completed already is the double invocation of 4.5.
\<close>

definition on_complete :: "nat \<Rightarrow> (error, sched) effect" where
  "on_complete i s =
     (if i < length (invs s) \<and> inv_status (invs s ! i) = Running then Inr (complete_inv i s)
      else if i < length (invs s) \<and> inv_status (invs s ! i) = Done then Inl AlreadyCompleted
      else Inl NotRunning)"

text \<open>Modelled from the spec: the static function of the signature the handle holds,
  \<^verbatim>\<open>void (*)(Engine *, void *)\<close>; the parameter names the invocation (4.5, section 9).\<close>

definition OnCompleteStatic :: "'e \<Rightarrow> nat \<Rightarrow> (error, sched) effect" where
  "OnCompleteStatic engine param = on_complete param"

text \<open>Modelled from the spec: the handle the engine passes to the body of invocation
  \<open>i\<close>, made by \<^verbatim>\<open>CreateCallback\<close> of the header (4.5: bound to exactly one invocation).\<close>

definition completion_handle :: "'e \<Rightarrow> nat \<Rightarrow> ('e, nat, error, sched) CallbackOnComplete" where
  "completion_handle this i = CreateCallback this OnCompleteStatic i"

subsection \<open>Worker dispatch (4.4), deletion (4.1, 4.6) and waiting (4.7)\<close>

text \<open>
  Modelled from the spec: a worker takes a granted invocation and begins to execute it.
  A pushed function or an operator then runs outside this state until its handle is
  invoked. The pseudo-invocation of a variable's deletion invokes the disposal function,
  frees the token and completes; the one of a wait completes and releases the caller.
  The disposal and the freeing are one step of the worker: 4.1 has the disposal function
  invoked and then the token freed, the header documents \<^verbatim>\<open>delete_fn\<close> as called after the
  variable is deleted, and no state in between is observed here.
\<close>

definition worker_begin :: "nat \<Rightarrow> (error, sched) effect" where
  "worker_begin i s =
     (if i < length (invs s) \<and> inv_status (invs s ! i) = Ready then
        (let s1 = s\<lparr>invs := set_status i Running (invs s), log := log s @ [Began i]\<rparr> in
         case inv_work (invs s ! i) of
           DisposeVar v \<Rightarrow>
             Inr (complete_inv i
                    (s1\<lparr>freed := (freed s1)(v := True),
                        log := log s1 @ [Disposed i v]\<rparr>))
         | WaitVar v \<Rightarrow>
             (let s2 = complete_inv i s1 in Inr (s2\<lparr>log := log s2 @ [Released i]\<rparr>))
         | _ \<Rightarrow> Inr s1)
      else Inl NotReady)"

subsection \<open>The virtual functions\<close>

text \<open>Modelled from the spec: \<^verbatim>\<open>Allocate\<close> of 4.1, the next unused token.\<close>

definition NewVariable :: "sched \<Rightarrow> VarHandle \<times> sched" where
  "NewVariable s = (next_var s, s\<lparr>next_var := Suc (next_var s)\<rparr>)"

text \<open>
  Modelled from the spec: \<^verbatim>\<open>Register\<close> of 4.2. A variable in both sets is a caller error
  reported at registration; otherwise the descriptor is stored under a new handle.
\<close>

definition NewOperator ::
  "'f \<Rightarrow> VarHandle list \<Rightarrow> VarHandle list \<Rightarrow> FnProperty \<Rightarrow> sched \<Rightarrow> error + OprHandle \<times> sched" where
  "NewOperator fn const_vars mutable_vars prop s =
     (if list_ex (\<lambda>v. v \<in> set mutable_vars) const_vars then Inl ContractViolation
      else Inr (next_opr s,
                s\<lparr>oprs := (oprs s)(next_opr s \<mapsto>
                      \<lparr>opr_const = const_vars, opr_mutable = mutable_vars, opr_prop = prop,
                       opr_deleted = False, opr_count = 0\<rparr>),
                  next_opr := Suc (next_opr s)\<rparr>))"

text \<open>
  Modelled from the spec: \<^verbatim>\<open>MarkDeleted\<close> of 4.2. The descriptor is marked and left to
  the deletion manager.
\<close>

definition DeleteOperator :: "OprHandle \<Rightarrow> sched \<Rightarrow> sched" where
  "DeleteOperator h s =
     (case oprs s h of
        None \<Rightarrow> s
      | Some d \<Rightarrow> s\<lparr>oprs := (oprs s)(h \<mapsto> d\<lparr>opr_deleted := True\<rparr>)\<rparr>)"

text \<open>Modelled from the spec: \<^verbatim>\<open>Push\<close> of a registered operator is one more invocation of
  it, with the sets and the property of its descriptor (4.2, 4.3). Without a descriptor
  there is nothing to push.\<close>

definition Push :: "OprHandle \<Rightarrow> 'c \<Rightarrow> (error, sched) effect" where
  "Push h exec_ctx s =
     (case oprs s h of
        None \<Rightarrow> Inl InvalidHandle
      | Some d \<Rightarrow>
          Inr (push_invocation (opr_const d) (opr_mutable d) (opr_prop d) (OprFn h)
                 (s\<lparr>oprs := (oprs s)(h \<mapsto> d\<lparr>opr_count := Suc (opr_count d)\<rparr>)\<rparr>)))"

text \<open>Modelled from the spec: \<^verbatim>\<open>PushAsync\<close> of section 6, a push of an ad-hoc function
  (4.3). The function and the context are the worker's business.\<close>

definition PushAsync ::
  "'f \<Rightarrow> 'c \<Rightarrow> VarHandle list \<Rightarrow> VarHandle list \<Rightarrow> FnProperty \<Rightarrow> sched \<Rightarrow> sched" where
  "PushAsync exec_fun exec_ctx const_vars mutable_vars prop s =
     push_invocation const_vars mutable_vars prop UserFn s"

text \<open>Modelled from the spec: \<^verbatim>\<open>ScheduleDeletion\<close> of 4.1 and 4.6, a zero-work
  write-class entry on the variable.\<close>

definition DeleteVariable :: "'f \<Rightarrow> 'c \<Rightarrow> VarHandle \<Rightarrow> sched \<Rightarrow> sched" where
  "DeleteVariable delete_fn exec_ctx var s = push_invocation [] [var] kNormal (DisposeVar var) s"

text \<open>
  Modelled from the spec: \<^verbatim>\<open>WaitForVar\<close> of 4.7, "a zero-work read-class
  pseudo-invocation pushed on var, whose completion callback releases the blocked caller".
  The caller is blocked until the event \<open>Released\<close> of the entry.
\<close>

definition WaitForVar :: "VarHandle \<Rightarrow> sched \<Rightarrow> sched" where
  "WaitForVar var s = push_invocation [var] [] kNormal (WaitVar var) s"

subsection \<open>Runs of the engine\<close>

text \<open>
  Modelled from the spec: everything that can happen to the engine (section 5): a call of
  the interface by some caller thread, a worker beginning a granted invocation, a function
  body invoking its completion handle from whatever thread, the deletion manager looking
  at an operator. The bookkeeping of each is atomic, so a run is a sequence of them.
\<close>

datatype call =
    Call_NewVariable
  | Call_NewOperator "VarHandle list" "VarHandle list" FnProperty
  | Call_DeleteOperator OprHandle
  | Call_Push OprHandle
  | Call_PushAsync "VarHandle list" "VarHandle list" FnProperty
  | Call_DeleteVariable VarHandle
  | Call_WaitForVar VarHandle
  | Worker_Begin nat
  | Invoke_Callback nat
  | Manager_Reclaim OprHandle

text \<open>Modelled from the spec: one happening, with the error it may be rejected with.\<close>

fun step :: "call \<Rightarrow> (error, sched) effect" where
  "step Call_NewVariable s = Inr (snd (NewVariable s))"
| "step (Call_NewOperator cv mv prop) s = map_sum id snd (NewOperator () cv mv prop s)"
| "step (Call_DeleteOperator h) s = Inr (DeleteOperator h s)"
| "step (Call_Push h) s = Push h () s"
| "step (Call_PushAsync cv mv prop) s = Inr (PushAsync () () cv mv prop s)"
| "step (Call_DeleteVariable v) s = Inr (DeleteVariable () () v s)"
| "step (Call_WaitForVar v) s = Inr (WaitForVar v s)"
| "step (Worker_Begin i) s = worker_begin i s"
| "step (Invoke_Callback i) s = invoke (completion_handle () i) s"
| "step (Manager_Reclaim h) s = Inr (reclaim h s)"

text \<open>Modelled from the spec: a happening that is rejected leaves the state as it is.\<close>

definition exec :: "call \<Rightarrow> sched \<Rightarrow> sched" where
  "exec c s = (case step c s of Inl e \<Rightarrow> s | Inr t \<Rightarrow> t)"

text \<open>Modelled from the spec: the state after a sequence of happenings.\<close>

definition run :: "call list \<Rightarrow> sched \<Rightarrow> sched" where
  "run cs s = foldl (\<lambda>t c. exec c t) s cs"

text \<open>
  The first occurrence of \<open>a\<close> in the log is strictly before the first occurrence of
  \<open>b\<close>, and \<open>b\<close> occurs.
\<close>

fun before :: "'a \<Rightarrow> 'a \<Rightarrow> 'a list \<Rightarrow> bool" where
  "before a b [] = False"
| "before a b (x # xs) = (x \<noteq> b \<and> (if x = a then b \<in> set xs else before a b xs))"

section \<open>What holds in every state of the scheduler\<close>

text \<open>An invocation can be granted: it waits and its wait-count is zero.\<close>

definition can_grant :: "sched \<Rightarrow> nat \<Rightarrow> bool" where
  "can_grant s i = (i < length (invs s) \<and> inv_status (invs s ! i) = Waiting \<and> wait_count s i = 0)"

text \<open>
  The accesses of an earlier invocation \<open>x\<close> and a later one \<open>y\<close> on the variable \<open>v\<close>
  are in conflict: \<open>y\<close> writes \<open>v\<close> and \<open>x\<close> reads or writes it, or \<open>y\<close> reads \<open>v\<close> and
  \<open>x\<close> writes it.
\<close>

definition conflict :: "invocation \<Rightarrow> invocation \<Rightarrow> VarHandle \<Rightarrow> bool" where
  "conflict x y v =
     ((v \<in> set (inv_mutable y) \<and> (v \<in> set (inv_const x) \<or> v \<in> set (inv_mutable x)))
      \<or> (v \<in> set (inv_const y) \<and> v \<in> set (inv_mutable x)))"

text \<open>Every queue entry belongs to an invocation that has not completed and that declared
  the variable with that access mode.\<close>

definition queue_wf :: "sched \<Rightarrow> bool" where
  "queue_wf s = (\<forall>v e. e \<in> set (queue s v) \<longrightarrow>
      fst e < length (invs s) \<and> inv_status (invs s ! fst e) \<noteq> Done
      \<and> (snd e = ReadAccess \<longrightarrow> v \<in> set (inv_const (invs s ! fst e)))
      \<and> (snd e = WriteAccess \<longrightarrow> v \<in> set (inv_mutable (invs s ! fst e))))"

text \<open>Every access of an invocation that has not completed is in the queue of its variable.\<close>

definition queued :: "sched \<Rightarrow> bool" where
  "queued s = (\<forall>i v. i < length (invs s) \<longrightarrow> inv_status (invs s ! i) \<noteq> Done \<longrightarrow>
      (v \<in> set (inv_const (invs s ! i)) \<longrightarrow> (i, ReadAccess) \<in> set (queue s v))
      \<and> (v \<in> set (inv_mutable (invs s ! i)) \<longrightarrow> (i, WriteAccess) \<in> set (queue s v)))"

text \<open>The log and the status of an invocation tell the same story.\<close>

definition log_status :: "sched \<Rightarrow> bool" where
  "log_status s = (\<forall>i.
      (Granted i \<in> set (log s) \<longleftrightarrow> i < length (invs s) \<and> inv_status (invs s ! i) \<noteq> Waiting)
      \<and> (Began i \<in> set (log s) \<longleftrightarrow>
           i < length (invs s) \<and> inv_status (invs s ! i) \<in> {Running, Done})
      \<and> (Completed i \<in> set (log s) \<longleftrightarrow>
           i < length (invs s) \<and> inv_status (invs s ! i) = Done))"

text \<open>A granted invocation was granted after every earlier conflicting one had completed.\<close>

definition ordered :: "sched \<Rightarrow> bool" where
  "ordered s = (\<forall>a b v. a < b \<longrightarrow> b < length (invs s) \<longrightarrow>
      conflict (invs s ! a) (invs s ! b) v \<longrightarrow> Granted b \<in> set (log s) \<longrightarrow>
      before (Completed a) (Granted b) (log s))"

definition begun_after_grant :: "sched \<Rightarrow> bool" where
  "begun_after_grant s = (\<forall>i. Began i \<in> set (log s) \<longrightarrow> before (Granted i) (Began i) (log s))"

text \<open>
  A disposal is logged by a deletion, after its execution began, and by every deletion
  whose execution began; a release is logged after the execution of its invocation began.
\<close>

definition pseudo_log :: "sched \<Rightarrow> bool" where
  "pseudo_log s = (\<forall>i v.
      (Disposed i v \<in> set (log s) \<longrightarrow>
         i < length (invs s) \<and> inv_work (invs s ! i) = DisposeVar v
         \<and> before (Began i) (Disposed i v) (log s))
      \<and> (i < length (invs s) \<and> inv_work (invs s ! i) = DisposeVar v \<and> Began i \<in> set (log s)
           \<longrightarrow> Disposed i v \<in> set (log s))
      \<and> (Released i \<in> set (log s) \<longrightarrow>
         i < length (invs s) \<and> before (Began i) (Released i) (log s)))"

text \<open>A wait reads its variable and a deletion writes it.\<close>

definition pseudo_vars :: "sched \<Rightarrow> bool" where
  "pseudo_vars s = (\<forall>i v. i < length (invs s) \<longrightarrow>
      (inv_work (invs s ! i) = WaitVar v \<longrightarrow> v \<in> set (inv_const (invs s ! i)))
      \<and> (inv_work (invs s ! i) = DisposeVar v \<longrightarrow> v \<in> set (inv_mutable (invs s ! i))))"

definition sound :: "sched \<Rightarrow> bool" where
  "sound s = (queue_wf s \<and> queued s \<and> log_status s \<and> ordered s \<and> begun_after_grant s
              \<and> pseudo_log s \<and> pseudo_vars s \<and> distinct (log s))"

text \<open>
  The state \<open>t\<close> is later than \<open>s\<close>: the invocations of \<open>s\<close> are still there with the
  same work and variables, the completed ones are still completed, the log has only grown,
  and the queue entries of the invocations of \<open>s\<close> were already there in \<open>s\<close>.
\<close>

definition later :: "sched \<Rightarrow> sched \<Rightarrow> bool" where
  "later s t =
     (length (invs s) \<le> length (invs t)
      \<and> (\<forall>i<length (invs s).
            inv_work (invs t ! i) = inv_work (invs s ! i)
            \<and> inv_const (invs t ! i) = inv_const (invs s ! i)
            \<and> inv_mutable (invs t ! i) = inv_mutable (invs s ! i)
            \<and> (inv_status (invs s ! i) = Done \<longrightarrow> inv_status (invs t ! i) = Done))
      \<and> set (log s) \<subseteq> set (log t)
      \<and> (\<forall>v e. e \<in> set (queue t v) \<longrightarrow> fst e < length (invs s) \<longrightarrow> e \<in> set (queue s v)))"

text \<open>A token is freed only by a deletion of it that has invoked its disposal function.\<close>

definition freed_ok :: "sched \<Rightarrow> bool" where
  "freed_ok s = (\<forall>v. freed s v \<longrightarrow>
      (\<exists>d<length (invs s). inv_work (invs s ! d) = DisposeVar v \<and> Disposed d v \<in> set (log s)))"

text \<open>No invocation is left waiting with a wait-count of zero.\<close>

definition eager :: "sched \<Rightarrow> bool" where
  "eager s = (\<forall>i<length (invs s). inv_status (invs s ! i) = Waiting \<longrightarrow> wait_count s i \<noteq> 0)"

text \<open>The number of invocations of the operator \<open>h\<close> that have not completed.\<close>

definition outstanding :: "sched \<Rightarrow> OprHandle \<Rightarrow> nat" where
  "outstanding s h =
     length (filter (\<lambda>x. inv_work x = OprFn h \<and> inv_status x \<noteq> Done) (invs s))"

text \<open>The invocation count of a stored descriptor is that number, a handle with a
  descriptor has been handed out, and a handle without one has no invocation left.\<close>

definition opr_ok :: "sched \<Rightarrow> bool" where
  "opr_ok s = (\<forall>h. case oprs s h of
                      Some d \<Rightarrow> opr_count d = outstanding s h \<and> h < next_opr s
                    | None \<Rightarrow> outstanding s h = 0)"

section \<open>Example runs\<close>

text \<open>A writer, a reader and a second writer of variable 0, run one after the other.\<close>

definition serial_example :: "call list" where
  "serial_example =
     [Call_PushAsync [] [0] kNormal, Call_PushAsync [0] [] kNormal, Call_PushAsync [] [0] kNormal,
      Worker_Begin 0, Invoke_Callback 0, Worker_Begin 1, Invoke_Callback 1, Worker_Begin 2]"

text \<open>A writer, respectively a reader, of variable 0 that is running.\<close>

definition running_writer :: "call list" where
  "running_writer = [Call_PushAsync [] [0] kNormal, Worker_Begin 0]"

definition running_reader :: "call list" where
  "running_reader = [Call_PushAsync [0] [] kNormal, Worker_Begin 0]"

text \<open>What follows a call of \<^verbatim>\<open>WaitForVar\<close> on variable 0 in the examples.\<close>

definition writer_done_wait_begun :: "call list" where
  "writer_done_wait_begun = [Invoke_Callback 0, Worker_Begin 1]"

definition wait_begun :: "call list" where
  "wait_begun = [Worker_Begin 1]"

definition wait_then_release :: "call list" where
  "wait_then_release = [Call_WaitForVar 0, Worker_Begin 1]"

definition completed_twice :: "call list" where
  "completed_twice =
     [Call_PushAsync [] [0] kNormal, Worker_Begin 0, Invoke_Callback 0, Invoke_Callback 0]"





text \<open>An operator with one invocation pushed; and the same operator deleted, its
  invocation run to completion.\<close>

definition operator_in_use :: "call list" where
  "operator_in_use = [Call_NewOperator [0] [1] kNormal, Call_Push 0]"

definition operator_drained :: "call list" where
  "operator_drained = [Call_NewOperator [0] [1] kNormal, Call_Push 0, Call_DeleteOperator 0,
     Worker_Begin 0, Invoke_Callback 0]"

section \<open>Properties of the interface\<close>

lemma FnProperty_UNIV: "(UNIV :: FnProperty set) = {kNormal, kCopyFromGPU, kCopyToGPU, kAsync}"
proof -
  have "p \<in> {kNormal, kCopyFromGPU, kCopyToGPU, kAsync}" for p :: FnProperty
    by (cases p) simp_all
  then show ?thesis by blast
qed

text \<open>
  C9. The scheduling property is an enumeration of exactly four values: normal, copy from
  the device, copy to the device, and asynchronous. Every value of the type is one of the
  four, the four are different, and their enumerator values are 0, 1, 2, 3.
\<close>

theorem FnProperty_four_values:
  "(UNIV :: FnProperty set) = {kNormal, kCopyFromGPU, kCopyToGPU, kAsync}
   \<and> card (UNIV :: FnProperty set) = 4
   \<and> map FnProperty_value [kNormal, kCopyFromGPU, kCopyToGPU, kAsync] = [0, 1, 2, 3]"
  by (simp add: FnProperty_UNIV)

text \<open>
  C3. Invoking a completion handle is the call of the bound function on the bound engine
  and the bound parameter, and nothing else: the handle holds these three members only,
  the invocation takes no argument and yields no value beyond its effect. A handle made by
  \<^verbatim>\<open>CreateCallback(cb, param)\<close> on engine \<open>e\<close> performs \<open>cb e param\<close>.
\<close>

theorem CreateCallback_invoke:
  "invoke (CreateCallback e cb param) = cb e param
   \<and> invoke h = cb_callback h (cb_engine h) (cb_param h)
   \<and> cb_callback (CreateCallback e cb param) = cb
   \<and> cb_engine (CreateCallback e cb param) = e
   \<and> cb_param (CreateCallback e cb param) = param"
  by (simp add: invoke_def CreateCallback_def)

text \<open>
  C2. \<^verbatim>\<open>PushSync\<close> is \<^verbatim>\<open>PushAsync\<close> of the wrapped function, with the same context,
  variable lists and property, whatever the engine's \<^verbatim>\<open>PushAsync\<close> is. The function that
  reaches \<^verbatim>\<open>PushAsync\<close> runs \<open>fn\<close> and, when \<open>fn\<close> has returned, invokes the completion
  callback: on a world that counts completion signals, exactly one is added to the state
  \<open>fn\<close> leaves.
\<close>

theorem PushSync_is_PushAsync_of_wrapper:
  "PushSync push_async fn ctx const_vars mutable_vars prop
     = push_async (sync_wrapper_spec fn) ctx const_vars mutable_vars prop
   \<and> PushSync pushed_function fn ctx const_vars mutable_vars prop rctx handle w
     = (case fn rctx w of Inl x \<Rightarrow> Inl x | Inr w1 \<Rightarrow> invoke handle w1)
   \<and> PushSync pushed_function (on_state f) ctx const_vars mutable_vars prop rctx
       (CreateCallback e count_signal param) (u, n)
     = Inr (f rctx u, Suc n)"
proof -
  have wrap: "(\<lambda>c h. and_then (fn c) (invoke h)) = sync_wrapper_spec fn"
    by (simp add: and_then_def invoke_def sync_wrapper_spec_def fun_eq_iff)
  have one: "PushSync push_async fn ctx const_vars mutable_vars prop
     = push_async (sync_wrapper_spec fn) ctx const_vars mutable_vars prop"
    by (simp add: PushSync_def wrap)
  have two: "PushSync pushed_function fn ctx const_vars mutable_vars prop rctx handle w
     = (case fn rctx w of Inl x \<Rightarrow> Inl x | Inr w1 \<Rightarrow> invoke handle w1)"
    by (simp add: PushSync_def pushed_function_def and_then_def)
  have three: "PushSync pushed_function (on_state f) ctx const_vars mutable_vars prop rctx
       (CreateCallback e count_signal param) (u, n)
     = Inr (f rctx u, Suc n)"
    by (simp add: PushSync_def pushed_function_def and_then_def on_state_def invoke_def
        CreateCallback_def count_signal_def)
  from one two three show ?thesis by blast
qed

text \<open>
  C10. A call of \<^verbatim>\<open>NewOperator\<close>, \<^verbatim>\<open>PushAsync\<close> or \<^verbatim>\<open>PushSync\<close> that leaves the property
  out is the call with \<^verbatim>\<open>FnProperty::kNormal\<close>.
\<close>

theorem omitted_prop_is_kNormal:
  "call_NewOperator new_operator op_fn const_vars mutable_vars None
     = call_NewOperator new_operator op_fn const_vars mutable_vars (Some kNormal)
   \<and> call_NewOperator new_operator op_fn const_vars mutable_vars None
     = new_operator op_fn const_vars mutable_vars kNormal
   \<and> call_PushAsync push_async async_fn ctx const_vars mutable_vars None
     = call_PushAsync push_async async_fn ctx const_vars mutable_vars (Some kNormal)
   \<and> call_PushAsync push_async async_fn ctx const_vars mutable_vars None
     = push_async async_fn ctx const_vars mutable_vars kNormal
   \<and> call_PushSync push_async2 sync_fn ctx const_vars mutable_vars None
     = call_PushSync push_async2 sync_fn ctx const_vars mutable_vars (Some kNormal)
   \<and> call_PushSync push_async2 sync_fn ctx const_vars mutable_vars None
     = PushSync push_async2 sync_fn ctx const_vars mutable_vars kNormal"
  by (simp add: call_NewOperator_def call_PushAsync_def call_PushSync_def prop_argument_def)

section \<open>Lemmas about the log, the statuses and the dispatch\<close>

lemma before_mem: "before a b l \<Longrightarrow> a \<in> set l \<and> b \<in> set l"
  by (induction l) (auto split: if_splits)

lemma before_append: "before a b l \<Longrightarrow> before a b (l @ m)"
  by (induction l) (auto split: if_splits)

lemma before_fresh: "a \<in> set l \<Longrightarrow> b \<notin> set l \<Longrightarrow> b \<in> set m \<Longrightarrow> before a b (l @ m)"
  by (induction l) (auto split: if_splits)

lemma before_trans: "before a b l \<Longrightarrow> before b c l \<Longrightarrow> before a c l"
  by (induction l) (auto split: if_splits dest: before_mem)

lemma length_set_status [simp]: "length (set_status i st xs) = length xs"
  by (simp add: set_status_def)

lemma nth_set_status:
  "j < length xs \<Longrightarrow>
   set_status i st xs ! j = (if j = i then (xs ! i)\<lparr>inv_status := st\<rparr> else xs ! j)"
  by (simp add: set_status_def nth_list_update)

lemma set_status_fields [simp]:
  "j < length xs \<Longrightarrow> inv_const (set_status i st xs ! j) = inv_const (xs ! j)"
  "j < length xs \<Longrightarrow> inv_mutable (set_status i st xs ! j) = inv_mutable (xs ! j)"
  "j < length xs \<Longrightarrow> inv_work (set_status i st xs ! j) = inv_work (xs ! j)"
  "j < length xs \<Longrightarrow> inv_prop (set_status i st xs ! j) = inv_prop (xs ! j)"
  "j < length xs \<Longrightarrow>
     inv_status (set_status i st xs ! j) = (if j = i then st else inv_status (xs ! j))"
  by (simp_all add: nth_set_status)

lemma grant_alt:
  "grant i s = (if can_grant s i
                then s\<lparr>invs := set_status i Ready (invs s), log := log s @ [Granted i]\<rparr> else s)"
  by (simp add: grant_def can_grant_def)

lemma grant_same [simp]:
  "queue (grant i s) = queue s" "version (grant i s) = version s"
  "freed (grant i s) = freed s" "oprs (grant i s) = oprs s"
  "next_var (grant i s) = next_var s" "next_opr (grant i s) = next_opr s"
  "length (invs (grant i s)) = length (invs s)"
  by (simp_all add: grant_def)

lemma foldl_grant:
  assumes "\<And>i t. P t \<Longrightarrow> P (grant i t)" and "P s"
  shows "P (foldl (\<lambda>t i. grant i t) s js)"
  using assms(2) by (induction js arbitrary: s) (simp_all add: assms(1))

lemma dispatch_ready_preserves:
  assumes "\<And>i t. P t \<Longrightarrow> P (grant i t)" and "P s"
  shows "P (dispatch_ready s)"
  unfolding dispatch_ready_def using assms by (rule foldl_grant)

section \<open>The ordering invariant\<close>

lemma wait_count_zero:
  "wait_count s i = 0 \<longleftrightarrow>
   (\<forall>v\<in>set (inv_mutable (invs s ! i)). \<forall>e\<in>set (queue s v). \<not> fst e < i)
   \<and> (\<forall>v\<in>set (inv_const (invs s ! i)). \<forall>e\<in>set (queue s v). fst e < i \<longrightarrow> snd e \<noteq> WriteAccess)"
  by (auto simp: wait_count_def earlier_def writers_def filter_empty_conv)

lemma granted_all_done:
  assumes "queued s" "wait_count s b = 0" "a < b" "b < length (invs s)"
    "conflict (invs s ! a) (invs s ! b) v"
  shows "inv_status (invs s ! a) = Done"
proof (rule ccontr)
  assume nd: "inv_status (invs s ! a) \<noteq> Done"
  have la: "a < length (invs s)" using assms by simp
  from assms(5) consider
    (w) "v \<in> set (inv_mutable (invs s ! b))" "v \<in> set (inv_const (invs s ! a)) \<or> v \<in> set (inv_mutable (invs s ! a))"
    | (r) "v \<in> set (inv_const (invs s ! b))" "v \<in> set (inv_mutable (invs s ! a))"
    by (auto simp: conflict_def)
  then show False
  proof cases
    case w
    then obtain m where "(a, m) \<in> set (queue s v)"
      using assms(1) la nd by (auto simp: queued_def)
    with w(1) assms(2,3) show False by (fastforce simp: wait_count_zero)
  next
    case r
    then have "(a, WriteAccess) \<in> set (queue s v)"
      using assms(1) la nd by (auto simp: queued_def)
    with r(1) assms(2,3) show False by (fastforce simp: wait_count_zero)
  qed
qed

lemma soundD:
  assumes "sound s"
  shows "queue_wf s" "queued s" "log_status s" "ordered s" "begun_after_grant s"
    "pseudo_log s" "pseudo_vars s" "distinct (log s)"
  using assms by (simp_all add: sound_def)

lemma log_statusD:
  assumes "log_status s"
  shows "Granted i \<in> set (log s) \<longleftrightarrow> i < length (invs s) \<and> inv_status (invs s ! i) \<noteq> Waiting"
    "Began i \<in> set (log s) \<longleftrightarrow> i < length (invs s) \<and> inv_status (invs s ! i) \<in> {Running, Done}"
    "Completed i \<in> set (log s) \<longleftrightarrow> i < length (invs s) \<and> inv_status (invs s ! i) = Done"
  using assms unfolding log_status_def by blast+

lemma pseudo_logD:
  assumes "pseudo_log s"
  shows "Disposed i v \<in> set (log s) \<Longrightarrow>
           i < length (invs s) \<and> inv_work (invs s ! i) = DisposeVar v
           \<and> before (Began i) (Disposed i v) (log s)"
    and "i < length (invs s) \<Longrightarrow> inv_work (invs s ! i) = DisposeVar v \<Longrightarrow>
           Began i \<in> set (log s) \<Longrightarrow> Disposed i v \<in> set (log s)"
    and "Released i \<in> set (log s) \<Longrightarrow>
           i < length (invs s) \<and> before (Began i) (Released i) (log s)"
  using assms unfolding pseudo_log_def by blast+

lemma pseudo_logI:
  assumes "\<And>i v. Disposed i v \<in> set (log s) \<Longrightarrow>
           i < length (invs s) \<and> inv_work (invs s ! i) = DisposeVar v
           \<and> before (Began i) (Disposed i v) (log s)"
    and "\<And>i v. i < length (invs s) \<Longrightarrow> inv_work (invs s ! i) = DisposeVar v \<Longrightarrow>
           Began i \<in> set (log s) \<Longrightarrow> Disposed i v \<in> set (log s)"
    and "\<And>i. Released i \<in> set (log s) \<Longrightarrow>
           i < length (invs s) \<and> before (Began i) (Released i) (log s)"
  shows "pseudo_log s"
  unfolding pseudo_log_def using assms by blast

text \<open>A step that changes statuses only and logs one event that is neither a disposal nor
  a release nor the beginning of a deletion.\<close>

lemma pseudo_log_quiet:
  assumes p: "pseudo_log s"
    and len: "length (invs s') = length (invs s)"
    and work: "\<And>j. j < length (invs s) \<Longrightarrow> inv_work (invs s' ! j) = inv_work (invs s ! j)"
    and l: "log s' = log s @ [ev]"
    and ev: "\<And>j v. ev \<noteq> Disposed j v" "\<And>j. ev \<noteq> Released j"
      "\<And>j v. ev = Began j \<Longrightarrow> j < length (invs s) \<Longrightarrow> inv_work (invs s ! j) \<noteq> DisposeVar v"
  shows "pseudo_log s'"
proof (rule pseudo_logI)
  fix i v assume "Disposed i v \<in> set (log s')"
  then have "Disposed i v \<in> set (log s)" using ev(1)[of i v] by (auto simp: l)
  from pseudo_logD(1)[OF p this]
  show "i < length (invs s') \<and> inv_work (invs s' ! i) = DisposeVar v
        \<and> before (Began i) (Disposed i v) (log s')"
    by (simp add: len work l before_append)
next
  fix i v
  assume il: "i < length (invs s')" and w: "inv_work (invs s' ! i) = DisposeVar v"
    and b: "Began i \<in> set (log s')"
  have il': "i < length (invs s)" using il by (simp add: len)
  have w': "inv_work (invs s ! i) = DisposeVar v" using w il' by (simp add: work)
  have "Began i \<in> set (log s)" using b ev(3)[of i v] il' w' by (auto simp: l)
  from pseudo_logD(2)[OF p il' w' this] show "Disposed i v \<in> set (log s')" by (simp add: l)
next
  fix i assume "Released i \<in> set (log s')"
  then have "Released i \<in> set (log s)" using ev(2)[of i] by (auto simp: l)
  from pseudo_logD(3)[OF p this]
  show "i < length (invs s') \<and> before (Began i) (Released i) (log s')"
    by (simp add: len l before_append)
qed

subsection \<open>A grant\<close>

lemma sound_grant_step:
  assumes snd: "sound s" and cg: "can_grant s i"
    and i: "invs s' = set_status i Ready (invs s)" and q: "queue s' = queue s"
    and l: "log s' = log s @ [Granted i]"
  shows "sound s'"
proof -
  note inv = soundD[OF snd]
  note ls = log_statusD[OF inv(3)]
  have il: "i < length (invs s)" and iw: "inv_status (invs s ! i) = Waiting"
    and wc: "wait_count s i = 0" using cg by (simp_all add: can_grant_def)
  have fresh: "Granted i \<notin> set (log s)" using iw il by (simp add: ls)
  have 1: "queue_wf s'" using inv(1) il iw by (auto simp: queue_wf_def i q)
  have 2: "queued s'" using inv(2) il iw by (auto simp: queued_def i q)
  have 3: "log_status s'" unfolding log_status_def using il iw by (auto simp: ls i l split: if_splits)
  have 4: "ordered s'"
    unfolding ordered_def
  proof (intro allI impI)
    fix a b v
    assume ab: "a < b" and bl: "b < length (invs s')"
      and cf: "conflict (invs s' ! a) (invs s' ! b) v" and g: "Granted b \<in> set (log s')"
    have bl': "b < length (invs s)" using bl by (simp add: i)
    have cf': "conflict (invs s ! a) (invs s ! b) v" using cf ab bl' by (simp add: conflict_def i)
    show "before (Completed a) (Granted b) (log s')"
    proof (cases "b = i")
      case True
      have "inv_status (invs s ! a) = Done"
        using granted_all_done[of s b a v] inv(2) wc ab bl' cf' True by simp
      then have "Completed a \<in> set (log s)" using ab bl' by (simp add: ls)
      then show ?thesis using fresh True by (simp add: l before_fresh)
    next
      case False
      then have "Granted b \<in> set (log s)" using g by (simp add: l)
      then have "before (Completed a) (Granted b) (log s)"
        using inv(4) ab bl' cf' unfolding ordered_def by blast
      then show ?thesis by (simp add: l before_append)
    qed
  qed
  have 5: "begun_after_grant s'" using inv(5) by (auto simp: begun_after_grant_def l before_append)
  have 6: "pseudo_log s'" by (rule pseudo_log_quiet[OF inv(6) _ _ l]) (simp_all add: i)
  have 7: "pseudo_vars s'" using inv(7) by (auto simp: pseudo_vars_def i)
  have 8: "distinct (log s')" using inv(8) fresh by (simp add: l)
  from 1 2 3 4 5 6 7 8 show ?thesis by (simp add: sound_def)
qed

lemma sound_grant: "sound s \<Longrightarrow> sound (grant i s)"
  by (cases "can_grant s i") (auto simp: grant_alt intro: sound_grant_step)

lemma sound_dispatch_ready: "sound s \<Longrightarrow> sound (dispatch_ready s)"
  by (rule dispatch_ready_preserves) (auto intro: sound_grant)

subsection \<open>The beginning of an execution\<close>

lemma sound_start_step:
  assumes snd: "sound s" and il: "i < length (invs s)" and ir: "inv_status (invs s ! i) = Ready"
    and i: "invs s' = set_status i Running (invs s)" and q: "queue s' = queue s"
    and l: "log s' = log s @ Began i # evs"
    and evs: "evs = (case inv_work (invs s ! i) of DisposeVar v \<Rightarrow> [Disposed i v] | _ \<Rightarrow> [])"
  shows "sound s'"
proof -
  note inv = soundD[OF snd]
  note ls = log_statusD[OF inv(3)]
  have fresh: "Began i \<notin> set (log s)" using ir il by (simp add: ls)
  have granted: "Granted i \<in> set (log s)" using ir il by (simp add: ls)
  have nodisp: "Disposed i v \<notin> set (log s)" for v
    using pseudo_logD(1)[OF inv(6), of i v] fresh by (blast dest: before_mem)
  have mem: "e \<in> set evs \<longleftrightarrow> (\<exists>v. e = Disposed i v \<and> inv_work (invs s ! i) = DisposeVar v)" for e
    using evs by (auto split: work.splits)
  have setl: "set (log s') = set (log s) \<union> {Began i} \<union> set evs" by (auto simp: l)
  have 1: "queue_wf s'" using inv(1) il ir by (auto simp: queue_wf_def i q)
  have 2: "queued s'" using inv(2) il ir by (auto simp: queued_def i q)
  have 3: "log_status s'" unfolding log_status_def using il ir mem
    by (auto simp: ls i setl split: if_splits)
  have 4: "ordered s'"
    unfolding ordered_def
  proof (intro allI impI)
    fix a b v
    assume ab: "a < b" and bl: "b < length (invs s')"
      and cf: "conflict (invs s' ! a) (invs s' ! b) v" and g: "Granted b \<in> set (log s')"
    have bl': "b < length (invs s)" using bl by (simp add: i)
    have cf': "conflict (invs s ! a) (invs s ! b) v" using cf ab bl' by (simp add: conflict_def i)
    have "Granted b \<in> set (log s)" using g mem by (auto simp: setl)
    then have "before (Completed a) (Granted b) (log s)"
      using inv(4) ab bl' cf' unfolding ordered_def by blast
    then show "before (Completed a) (Granted b) (log s')" by (simp add: l before_append)
  qed
  have 5: "begun_after_grant s'"
    unfolding begun_after_grant_def
  proof (intro allI impI)
    fix j assume "Began j \<in> set (log s')"
    then consider "Began j \<in> set (log s)" | "j = i" using mem by (auto simp: setl)
    then show "before (Granted j) (Began j) (log s')"
    proof cases
      case 1
      then show ?thesis using inv(5) by (simp add: begun_after_grant_def l before_append)
    next
      case 2
      then show ?thesis using granted fresh by (simp add: l before_fresh)
    qed
  qed
  have 6: "pseudo_log s'"
  proof (rule pseudo_logI)
    fix j v assume d: "Disposed j v \<in> set (log s')"
    show "j < length (invs s') \<and> inv_work (invs s' ! j) = DisposeVar v
          \<and> before (Began j) (Disposed j v) (log s')"
    proof (cases "Disposed j v \<in> set (log s)")
      case True
      from pseudo_logD(1)[OF inv(6) this] show ?thesis by (simp add: i l before_append)
    next
      case False
      then have ji: "j = i" and w: "inv_work (invs s ! i) = DisposeVar v"
        and de: "Disposed j v \<in> set evs" using d mem by (auto simp: setl)
      have "before (Began i) (Disposed i v) ((log s @ [Began i]) @ evs)"
        using False de ji by (intro before_fresh) auto
      then show ?thesis using ji w il by (simp add: l i)
    qed
  next
    fix j v
    assume jl0: "j < length (invs s')" and w0: "inv_work (invs s' ! j) = DisposeVar v"
      and b: "Began j \<in> set (log s')"
    have jl: "j < length (invs s)" using jl0 by (simp add: i)
    have w: "inv_work (invs s ! j) = DisposeVar v" using w0 jl by (simp add: i)
    show "Disposed j v \<in> set (log s')"
    proof (cases "j = i")
      case True
      then show ?thesis using w mem by (auto simp: setl)
    next
      case False
      then have "Began j \<in> set (log s)" using b mem by (auto simp: setl)
      from pseudo_logD(2)[OF inv(6) jl w this] show ?thesis by (simp add: setl)
    qed
  next
    fix j assume r: "Released j \<in> set (log s')"
    then have r': "Released j \<in> set (log s)" using mem by (auto simp: setl)
    from pseudo_logD(3)[OF inv(6) this]
    show "j < length (invs s') \<and> before (Began j) (Released j) (log s')"
      by (simp add: i l before_append)
  qed
  have 7: "pseudo_vars s'" using inv(7) by (auto simp: pseudo_vars_def i)
  have 8: "distinct (log s')" using inv(8) fresh nodisp evs by (auto simp: l split: work.splits)
  from 1 2 3 4 5 6 7 8 show ?thesis by (simp add: sound_def)
qed

subsection \<open>A completion\<close>

lemma sound_finish_step:
  assumes snd: "sound s" and il: "i < length (invs s)" and ir: "inv_status (invs s ! i) = Running"
    and i: "invs s' = set_status i Done (invs s)"
    and q: "queue s' = (\<lambda>v. filter (\<lambda>e. fst e \<noteq> i) (queue s v))"
    and l: "log s' = log s @ [Completed i]"
  shows "sound s'"
proof -
  note inv = soundD[OF snd]
  note ls = log_statusD[OF inv(3)]
  have fresh: "Completed i \<notin> set (log s)" using ir il by (simp add: ls)
  have 1: "queue_wf s'" using inv(1) il by (auto simp: queue_wf_def i q)
  have 2: "queued s'" using inv(2) il by (auto simp: queued_def i q)
  have 3: "log_status s'" unfolding log_status_def using il ir
    by (auto simp: ls i l split: if_splits)
  have 4: "ordered s'"
    unfolding ordered_def
  proof (intro allI impI)
    fix a b v
    assume ab: "a < b" and bl: "b < length (invs s')"
      and cf: "conflict (invs s' ! a) (invs s' ! b) v" and g: "Granted b \<in> set (log s')"
    have bl': "b < length (invs s)" using bl by (simp add: i)
    have cf': "conflict (invs s ! a) (invs s ! b) v" using cf ab bl' by (simp add: conflict_def i)
    have "Granted b \<in> set (log s)" using g by (simp add: l)
    then have "before (Completed a) (Granted b) (log s)"
      using inv(4) ab bl' cf' unfolding ordered_def by blast
    then show "before (Completed a) (Granted b) (log s')" by (simp add: l before_append)
  qed
  have 5: "begun_after_grant s'" using inv(5) by (auto simp: begun_after_grant_def l before_append)
  have 6: "pseudo_log s'" by (rule pseudo_log_quiet[OF inv(6) _ _ l]) (simp_all add: i)
  have 7: "pseudo_vars s'" using inv(7) by (auto simp: pseudo_vars_def i)
  have 8: "distinct (log s')" using inv(8) fresh by (simp add: l)
  from 1 2 3 4 5 6 7 8 show ?thesis by (simp add: sound_def)
qed

subsection \<open>A push\<close>

lemma sound_append_step:
  assumes snd: "sound s"
    and i: "invs s' = invs s @ [x]" and xs: "inv_status x = Waiting"
    and q: "queue s' = enqueue (length (invs s)) (inv_const x) (inv_mutable x) (queue s)"
    and l: "log s' = log s"
    and xw: "\<And>v. inv_work x = WaitVar v \<Longrightarrow> v \<in> set (inv_const x)"
    and xd: "\<And>v. inv_work x = DisposeVar v \<Longrightarrow> v \<in> set (inv_mutable x)"
  shows "sound s'"
proof -
  note inv = soundD[OF snd]
  note ls = log_statusD[OF inv(3)]
  have 1: "queue_wf s'"
    unfolding queue_wf_def
  proof (intro allI impI)
    fix v e assume "e \<in> set (queue s' v)"
    then consider (old) "e \<in> set (queue s v)"
      | (rd) "e = (length (invs s), ReadAccess)" "v \<in> set (inv_const x)"
      | (wr) "e = (length (invs s), WriteAccess)" "v \<in> set (inv_mutable x)"
      by (auto simp: q enqueue_def split: if_splits)
    then show "fst e < length (invs s') \<and> inv_status (invs s' ! fst e) \<noteq> Done
      \<and> (snd e = ReadAccess \<longrightarrow> v \<in> set (inv_const (invs s' ! fst e)))
      \<and> (snd e = WriteAccess \<longrightarrow> v \<in> set (inv_mutable (invs s' ! fst e)))"
    proof cases
      case old
      then have "fst e < length (invs s)" "inv_status (invs s ! fst e) \<noteq> Done"
        "snd e = ReadAccess \<longrightarrow> v \<in> set (inv_const (invs s ! fst e))"
        "snd e = WriteAccess \<longrightarrow> v \<in> set (inv_mutable (invs s ! fst e))"
        using inv(1) unfolding queue_wf_def by blast+
      then show ?thesis by (simp add: i nth_append)
    next
      case rd
      then show ?thesis using xs by (simp add: i)
    next
      case wr
      then show ?thesis using xs by (simp add: i)
    qed
  qed
  have 2: "queued s'" using inv(2)
    by (auto simp: queued_def i q enqueue_def nth_append less_Suc_eq)
  have 3: "log_status s'" unfolding log_status_def using xs
    by (auto simp: ls i l nth_append less_Suc_eq)
  have 4: "ordered s'"
    unfolding ordered_def
  proof (intro allI impI)
    fix a b v
    assume ab: "a < b" and bl: "b < length (invs s')"
      and cf: "conflict (invs s' ! a) (invs s' ! b) v" and g: "Granted b \<in> set (log s')"
    have bl': "b < length (invs s)" using g by (simp add: l ls)
    have cf': "conflict (invs s ! a) (invs s ! b) v"
      using cf ab bl' by (simp add: conflict_def i nth_append)
    have "before (Completed a) (Granted b) (log s)"
      using g inv(4) ab bl' cf' unfolding ordered_def l by blast
    then show "before (Completed a) (Granted b) (log s')" by (simp add: l)
  qed
  have 5: "begun_after_grant s'" using inv(5) by (auto simp: begun_after_grant_def l)
  have 6: "pseudo_log s'"
  proof (rule pseudo_logI)
    fix j v assume "Disposed j v \<in> set (log s')"
    then have "Disposed j v \<in> set (log s)" by (simp add: l)
    from pseudo_logD(1)[OF inv(6) this]
    show "j < length (invs s') \<and> inv_work (invs s' ! j) = DisposeVar v
          \<and> before (Began j) (Disposed j v) (log s')"
      by (simp add: i l nth_append)
  next
    fix j v
    assume w0: "inv_work (invs s' ! j) = DisposeVar v" and b: "Began j \<in> set (log s')"
    have jl: "j < length (invs s)" using b by (simp add: l ls)
    have w: "inv_work (invs s ! j) = DisposeVar v" using w0 jl by (simp add: i nth_append)
    from pseudo_logD(2)[OF inv(6) jl w] b show "Disposed j v \<in> set (log s')" by (simp add: l)
  next
    fix j assume "Released j \<in> set (log s')"
    then have "Released j \<in> set (log s)" by (simp add: l)
    from pseudo_logD(3)[OF inv(6) this]
    show "j < length (invs s') \<and> before (Began j) (Released j) (log s')"
      by (simp add: i l)
  qed
  have 7: "pseudo_vars s'" using inv(7) xw xd
    by (auto simp: pseudo_vars_def i nth_append less_Suc_eq)
  have 8: "distinct (log s')" using inv(8) by (simp add: l)
  from 1 2 3 4 5 6 7 8 show ?thesis by (simp add: sound_def)
qed

subsection \<open>The release of a waiting caller\<close>

lemma sound_release_step:
  assumes snd: "sound s" and il: "i < length (invs s)"
    and b: "Began i \<in> set (log s)" and fresh: "Released i \<notin> set (log s)"
    and i: "invs s' = invs s" and q: "queue s' = queue s"
    and l: "log s' = log s @ [Released i]"
  shows "sound s'"
proof -
  note inv = soundD[OF snd]
  note ls = log_statusD[OF inv(3)]
  have 1: "queue_wf s'" using inv(1) by (simp add: queue_wf_def i q)
  have 2: "queued s'" using inv(2) by (simp add: queued_def i q)
  have 3: "log_status s'" unfolding log_status_def by (simp add: ls i l)
  have 4: "ordered s'" using inv(4) by (auto simp: ordered_def i l before_append)
  have 5: "begun_after_grant s'" using inv(5) by (auto simp: begun_after_grant_def l before_append)
  have 6: "pseudo_log s'"
  proof (rule pseudo_logI)
    fix j v assume "Disposed j v \<in> set (log s')"
    then have "Disposed j v \<in> set (log s)" by (simp add: l)
    from pseudo_logD(1)[OF inv(6) this]
    show "j < length (invs s') \<and> inv_work (invs s' ! j) = DisposeVar v
          \<and> before (Began j) (Disposed j v) (log s')"
      by (simp add: i l before_append)
  next
    fix j v
    assume jl: "j < length (invs s')" and w: "inv_work (invs s' ! j) = DisposeVar v"
      and bj: "Began j \<in> set (log s')"
    from pseudo_logD(2)[of s j v] inv(6) jl w bj
    show "Disposed j v \<in> set (log s')" by (simp add: i l)
  next
    fix j assume r: "Released j \<in> set (log s')"
    show "j < length (invs s') \<and> before (Began j) (Released j) (log s')"
    proof (cases "Released j \<in> set (log s)")
      case True
      from pseudo_logD(3)[OF inv(6) this] show ?thesis by (simp add: i l before_append)
    next
      case False
      then have "j = i" using r by (simp add: l)
      then show ?thesis using il b fresh by (simp add: i l before_fresh)
    qed
  qed
  have 7: "pseudo_vars s'" using inv(7) by (auto simp: pseudo_vars_def i)
  have 8: "distinct (log s')" using inv(8) fresh by (simp add: l)
  from 1 2 3 4 5 6 7 8 show ?thesis by (simp add: sound_def)
qed

lemma sound_other_step:
  assumes "sound s" "invs s' = invs s" "queue s' = queue s" "log s' = log s"
  shows "sound s'"
proof -
  have "sound s' = sound s"
    unfolding sound_def queue_wf_def queued_def log_status_def ordered_def
      begun_after_grant_def pseudo_log_def pseudo_vars_def
    by (simp only: assms(2-4))
  then show ?thesis using assms(1) by simp
qed

lemma sound_init: "sound init"
proof -
  have "invs init = []" "log init = []" "queue init = (\<lambda>v. [])" by (simp_all add: init_def)
  then show ?thesis
    unfolding sound_def queue_wf_def queued_def log_status_def ordered_def
      begun_after_grant_def pseudo_log_def pseudo_vars_def
    by simp
qed

subsection \<open>The operations of the engine\<close>

lemma reclaim_same [simp]:
  "invs (reclaim h s) = invs s" "queue (reclaim h s) = queue s" "log (reclaim h s) = log s"
  "freed (reclaim h s) = freed s"
  by (simp_all add: reclaim_def split: option.splits)

lemma release_operator_same [simp]:
  "invs (release_operator w s) = invs s" "queue (release_operator w s) = queue s"
  "log (release_operator w s) = log s" "freed (release_operator w s) = freed s"
  by (simp_all add: release_operator_def split: work.splits option.splits)

lemma sound_push_invocation:
  assumes "sound s" "\<And>v. w = WaitVar v \<Longrightarrow> v \<in> set cv" "\<And>v. w = DisposeVar v \<Longrightarrow> v \<in> set mv"
  shows "sound (push_invocation cv mv prop w s)"
proof -
  define x where "x = \<lparr>inv_const = cv, inv_mutable = mv, inv_prop = prop, inv_work = w,
                        inv_status = Waiting\<rparr>"
  define s1 where "s1 = s\<lparr>invs := invs s @ [x], queue := enqueue (length (invs s)) cv mv (queue s)\<rparr>"
  have "sound s1"
    by (rule sound_append_step[OF assms(1), where x = x])
       (use assms(2,3) in \<open>auto simp: s1_def x_def\<close>)
  then have "sound (grant (length (invs s)) s1)" by (rule sound_grant)
  then show ?thesis by (simp add: push_invocation_def Let_def s1_def x_def)
qed

lemma sound_complete_inv:
  assumes "sound s" "i < length (invs s)" "inv_status (invs s ! i) = Running"
  shows "sound (complete_inv i s)"
  unfolding complete_inv_def
  by (rule sound_dispatch_ready, rule sound_finish_step[OF assms]) simp_all

lemma released_grant: "Released j \<in> set (log (grant i s)) \<longleftrightarrow> Released j \<in> set (log s)"
  by (simp add: grant_def)

lemma released_dispatch_ready:
  "Released j \<in> set (log (dispatch_ready s)) \<longleftrightarrow> Released j \<in> set (log s)"
  by (rule dispatch_ready_preserves[where P = "\<lambda>t. Released j \<in> set (log t) \<longleftrightarrow> Released j \<in> set (log s)"])
     (simp_all add: released_grant)

lemma released_complete_inv:
  "Released j \<in> set (log (complete_inv i s)) \<longleftrightarrow> Released j \<in> set (log s)"
  by (simp add: complete_inv_def released_dispatch_ready)

lemma length_dispatch_ready [simp]: "length (invs (dispatch_ready s)) = length (invs s)"
  by (rule dispatch_ready_preserves[where P = "\<lambda>t. length (invs t) = length (invs s)"]) simp_all

lemma length_complete_inv [simp]: "length (invs (complete_inv i s)) = length (invs s)"
  by (simp add: complete_inv_def)

lemma log_grant_mono: "e \<in> set (log s) \<Longrightarrow> e \<in> set (log (grant i s))"
  by (simp add: grant_def)

lemma log_dispatch_ready_mono: "e \<in> set (log s) \<Longrightarrow> e \<in> set (log (dispatch_ready s))"
  by (rule dispatch_ready_preserves[where P = "\<lambda>t. e \<in> set (log t)"]) (simp_all add: log_grant_mono)

lemma log_complete_inv_mono: "e \<in> set (log s) \<Longrightarrow> e \<in> set (log (complete_inv i s))"
  by (simp add: complete_inv_def log_dispatch_ready_mono)

lemma sound_worker_begin:
  assumes snd: "sound s" and wb: "worker_begin i s = Inr t"
  shows "sound t"
proof -
  have il: "i < length (invs s)" and ir: "inv_status (invs s ! i) = Ready"
    using wb by (auto simp: worker_begin_def split: if_splits)
  define s1 where "s1 = s\<lparr>invs := set_status i Running (invs s), log := log s @ [Began i]\<rparr>"
  have s1: "sound s1" if "\<And>v. inv_work (invs s ! i) \<noteq> DisposeVar v"
    by (rule sound_start_step[OF snd il ir, where evs = "[]"])
       (use that in \<open>auto simp: s1_def split: work.splits\<close>)
  have run1: "i < length (invs s1)" "inv_status (invs s1 ! i) = Running"
    using il by (simp_all add: s1_def)
  show ?thesis
  proof (cases "inv_work (invs s ! i)")
    case UserFn
    then have "t = s1" using wb il ir by (simp add: worker_begin_def s1_def)
    then show ?thesis using s1 UserFn by simp
  next
    case (OprFn h)
    then have "t = s1" using wb il ir by (simp add: worker_begin_def s1_def)
    then show ?thesis using s1 OprFn by simp
  next
    case (DisposeVar v)
    define s2 where "s2 = s1\<lparr>freed := (freed s1)(v := True), log := log s1 @ [Disposed i v]\<rparr>"
    have t: "t = complete_inv i s2"
      using wb il ir DisposeVar by (simp add: worker_begin_def s1_def s2_def Let_def)
    have "sound s2"
      by (rule sound_start_step[OF snd il ir, where evs = "[Disposed i v]"])
         (simp_all add: s2_def s1_def DisposeVar)
    moreover have "i < length (invs s2)" "inv_status (invs s2 ! i) = Running"
      using il by (simp_all add: s2_def s1_def)
    ultimately show ?thesis unfolding t by (rule sound_complete_inv)
  next
    case (WaitVar v)
    define s2 where "s2 = complete_inv i s1"
    have t: "t = s2\<lparr>log := log s2 @ [Released i]\<rparr>"
      using wb il ir WaitVar by (simp add: worker_begin_def s1_def s2_def Let_def)
    have s2: "sound s2" unfolding s2_def using s1 run1 WaitVar by (intro sound_complete_inv) simp_all
    have nb: "Began i \<notin> set (log s)"
      using log_statusD(2)[OF soundD(3)[OF snd], of i] ir by simp
    have "Released i \<notin> set (log s)"
      using pseudo_logD(3)[OF soundD(6)[OF snd], of i] nb by (blast dest: before_mem)
    then have fresh: "Released i \<notin> set (log s2)"
      by (simp add: s2_def released_complete_inv s1_def)
    have b: "Began i \<in> set (log s2)"
      unfolding s2_def by (rule log_complete_inv_mono) (simp add: s1_def)
    show ?thesis unfolding t
      by (rule sound_release_step[OF s2 _ b fresh]) (simp_all add: s2_def s1_def il)
  qed
qed

lemma sound_on_complete:
  assumes "sound s" "on_complete i s = Inr t"
  shows "sound t"
  using assms by (auto simp: on_complete_def split: if_splits intro: sound_complete_inv)

lemma sound_step:
  assumes "sound s" "step c s = Inr t"
  shows "sound t"
proof (cases c)
  case Call_NewVariable
  then show ?thesis using assms by (auto simp: NewVariable_def intro: sound_other_step)
next
  case (Call_NewOperator cv mv p)
  then show ?thesis using assms
    by (auto simp: NewOperator_def split: if_splits intro: sound_other_step)
next
  case (Call_DeleteOperator h)
  then show ?thesis using assms
    by (auto simp: DeleteOperator_def split: option.splits intro: sound_other_step)
next
  case (Call_Push h)
  then show ?thesis using assms
    by (auto simp: Push_def split: option.splits
        intro!: sound_push_invocation intro: sound_other_step)
next
  case (Call_PushAsync cv mv p)
  then show ?thesis using assms by (auto simp: PushAsync_def intro!: sound_push_invocation)
next
  case (Call_DeleteVariable v)
  then show ?thesis using assms by (auto simp: DeleteVariable_def intro!: sound_push_invocation)
next
  case (Call_WaitForVar v)
  then show ?thesis using assms by (auto simp: WaitForVar_def intro!: sound_push_invocation)
next
  case (Worker_Begin i)
  then show ?thesis using assms by (auto intro: sound_worker_begin)
next
  case (Invoke_Callback i)
  then show ?thesis using assms
    by (auto simp: invoke_def completion_handle_def CreateCallback_def OnCompleteStatic_def
        intro: sound_on_complete)
next
  case (Manager_Reclaim h)
  then show ?thesis using assms by (auto intro: sound_other_step)
qed

lemma sound_exec: "sound s \<Longrightarrow> sound (exec c s)"
  by (auto simp: exec_def split: sum.splits intro: sound_step)

lemma run_snoc: "run (cs @ [c]) s = exec c (run cs s)"
  by (simp add: run_def)

lemma run_append: "run (cs @ ds) s = run ds (run cs s)"
  by (simp add: run_def)

lemma sound_run: "sound s \<Longrightarrow> sound (run cs s)"
  by (induction cs rule: rev_induct) (simp_all add: run_snoc sound_exec, simp add: run_def)

section \<open>Later states\<close>

lemma later_refl: "later s s"
  by (simp add: later_def)

lemma later_trans:
  assumes "later s t" "later t u"
  shows "later s u"
  unfolding later_def
proof (intro conjI allI impI)
  show "length (invs s) \<le> length (invs u)" using assms by (simp add: later_def)
  show "set (log s) \<subseteq> set (log u)" using assms unfolding later_def by blast
next
  fix i assume i: "i < length (invs s)"
  then have it: "i < length (invs t)" using assms(1) by (simp add: later_def)
  show "inv_work (invs u ! i) = inv_work (invs s ! i)"
    "inv_const (invs u ! i) = inv_const (invs s ! i)"
    "inv_mutable (invs u ! i) = inv_mutable (invs s ! i)"
    using assms i it by (simp_all add: later_def)
  assume "inv_status (invs s ! i) = Done"
  then have "inv_status (invs t ! i) = Done" using assms(1) i by (simp add: later_def)
  then show "inv_status (invs u ! i) = Done" using assms(2) it by (simp add: later_def)
next
  fix v e assume e: "e \<in> set (queue u v)" and f: "fst e < length (invs s)"
  then have "fst e < length (invs t)" using assms(1) by (simp add: later_def)
  then have "e \<in> set (queue t v)" using assms(2) e unfolding later_def by blast
  then show "e \<in> set (queue s v)" using assms(1) f unfolding later_def by blast
qed

lemma later_same:
  assumes "invs t = invs s" "queue t = queue s" "log t = log s"
  shows "later s t"
  by (simp add: later_def assms)

lemma later_grant: "later s (grant i s)"
  by (auto simp: grant_def later_def)

lemma later_dispatch_ready: "later s (dispatch_ready s)"
  by (rule dispatch_ready_preserves[where P = "later s"])
     (auto intro: later_trans later_grant later_refl)

lemma later_push_invocation: "later s (push_invocation cv mv p w s)"
proof -
  define s1 where "s1 = s\<lparr>invs := invs s @ [\<lparr>inv_const = cv, inv_mutable = mv, inv_prop = p,
      inv_work = w, inv_status = Waiting\<rparr>], queue := enqueue (length (invs s)) cv mv (queue s)\<rparr>"
  have "later s s1"
    by (auto simp: later_def s1_def nth_append enqueue_def split: if_splits)
  then have "later s (grant (length (invs s)) s1)" by (rule later_trans) (rule later_grant)
  then show ?thesis by (simp add: push_invocation_def Let_def s1_def)
qed

lemma later_complete_inv: "later s (complete_inv i s)"
proof -
  define s1 where "s1 = s\<lparr>invs := set_status i Done (invs s),
             queue := (\<lambda>v. filter (\<lambda>e. fst e \<noteq> i) (queue s v)),
             version := (\<lambda>v. if v \<in> set (inv_mutable (invs s ! i))
                              then Suc (version s v) else version s v),
             log := log s @ [Completed i]\<rparr>"
  have 1: "later s s1" by (auto simp: later_def s1_def)
  have 2: "later s1 (release_operator (inv_work (invs s ! i)) s1)" by (rule later_same) simp_all
  have 3: "later (release_operator (inv_work (invs s ! i)) s1)
                 (dispatch_ready (release_operator (inv_work (invs s ! i)) s1))"
    by (rule later_dispatch_ready)
  from later_trans[OF later_trans[OF 1 2] 3] show ?thesis
    by (simp add: complete_inv_def s1_def)
qed

lemma later_worker_begin:
  assumes "worker_begin i s = Inr t"
  shows "later s t"
proof -
  have il: "i < length (invs s)" and ir: "inv_status (invs s ! i) = Ready"
    using assms by (auto simp: worker_begin_def split: if_splits)
  define s1 where "s1 = s\<lparr>invs := set_status i Running (invs s), log := log s @ [Began i]\<rparr>"
  have 1: "later s s1" using ir by (auto simp: later_def s1_def)
  show ?thesis
  proof (cases "inv_work (invs s ! i)")
    case UserFn
    then have "t = s1" using assms il ir by (simp add: worker_begin_def s1_def)
    then show ?thesis using 1 by simp
  next
    case (OprFn h)
    then have "t = s1" using assms il ir by (simp add: worker_begin_def s1_def)
    then show ?thesis using 1 by simp
  next
    case (DisposeVar v)
    define s2 where "s2 = s1\<lparr>freed := (freed s1)(v := True), log := log s1 @ [Disposed i v]\<rparr>"
    have t: "t = complete_inv i s2"
      using assms il ir DisposeVar by (simp add: worker_begin_def s1_def s2_def Let_def)
    have 2: "later s1 s2" by (auto simp: later_def s2_def)
    from later_trans[OF later_trans[OF 1 2] later_complete_inv] show ?thesis unfolding t .
  next
    case (WaitVar v)
    define s2 where "s2 = complete_inv i s1"
    have t: "t = s2\<lparr>log := log s2 @ [Released i]\<rparr>"
      using assms il ir WaitVar by (simp add: worker_begin_def s1_def s2_def Let_def)
    have 2: "later s1 s2" unfolding s2_def by (rule later_complete_inv)
    have 3: "later s2 t" by (auto simp: later_def t)
    from later_trans[OF later_trans[OF 1 2] 3] show ?thesis .
  qed
qed

lemma later_step:
  assumes "step c s = Inr t"
  shows "later s t"
proof (cases c)
  case Call_NewVariable
  then show ?thesis using assms by (auto simp: NewVariable_def intro: later_same)
next
  case (Call_NewOperator cv mv p)
  then show ?thesis using assms
    by (auto simp: NewOperator_def split: if_splits intro: later_same)
next
  case (Call_DeleteOperator h)
  then show ?thesis using assms
    by (auto simp: DeleteOperator_def split: option.splits intro: later_same later_refl)
next
  case (Call_Push h)
  then obtain d where d: "oprs s h = Some d"
    and t: "t = push_invocation (opr_const d) (opr_mutable d) (opr_prop d) (OprFn h)
                 (s\<lparr>oprs := (oprs s)(h \<mapsto> d\<lparr>opr_count := Suc (opr_count d)\<rparr>)\<rparr>)"
    using assms by (auto simp: Push_def split: option.splits)
  have "later s (s\<lparr>oprs := (oprs s)(h \<mapsto> d\<lparr>opr_count := Suc (opr_count d)\<rparr>)\<rparr>)"
    by (rule later_same) simp_all
  from later_trans[OF this later_push_invocation] show ?thesis unfolding t .
next
  case (Call_PushAsync cv mv p)
  then show ?thesis using assms by (auto simp: PushAsync_def intro: later_push_invocation)
next
  case (Call_DeleteVariable v)
  then show ?thesis using assms by (auto simp: DeleteVariable_def intro: later_push_invocation)
next
  case (Call_WaitForVar v)
  then show ?thesis using assms by (auto simp: WaitForVar_def intro: later_push_invocation)
next
  case (Worker_Begin i)
  then show ?thesis using assms by (auto intro: later_worker_begin)
next
  case (Invoke_Callback i)
  then show ?thesis using assms
    by (auto simp: invoke_def completion_handle_def CreateCallback_def OnCompleteStatic_def
        on_complete_def split: if_splits intro: later_complete_inv)
next
  case (Manager_Reclaim h)
  then show ?thesis using assms by (auto intro: later_same)
qed

lemma later_exec: "later s (exec c s)"
  by (auto simp: exec_def split: sum.splits intro: later_step later_refl)

lemma later_run: "later s (run cs s)"
proof (induction cs rule: rev_induct)
  case Nil
  then show ?case by (simp add: run_def later_refl)
next
  case (snoc c cs)
  then show ?case by (auto simp: run_snoc intro: later_trans later_exec)
qed

subsection \<open>Freed tokens\<close>

lemma freed_dispatch_ready [simp]: "freed (dispatch_ready s) = freed s"
  by (rule dispatch_ready_preserves[where P = "\<lambda>t. freed t = freed s"]) simp_all

lemma freed_complete_inv [simp]: "freed (complete_inv i s) = freed s"
  by (simp add: complete_inv_def)

lemma freed_push_invocation [simp]: "freed (push_invocation cv mv p w s) = freed s"
  by (simp add: push_invocation_def Let_def)

lemma freed_ok_later:
  assumes "freed_ok s" "later s t" "freed t = freed s"
  shows "freed_ok t"
  unfolding freed_ok_def
proof (intro allI impI)
  fix v assume "freed t v"
  then have "freed s v" by (simp add: assms(3))
  then obtain d where d: "d < length (invs s)" "inv_work (invs s ! d) = DisposeVar v"
    "Disposed d v \<in> set (log s)" using assms(1) unfolding freed_ok_def by blast
  then have "d < length (invs t)" "inv_work (invs t ! d) = DisposeVar v"
    "Disposed d v \<in> set (log t)" using assms(2) unfolding later_def by auto
  then show "\<exists>d<length (invs t). inv_work (invs t ! d) = DisposeVar v \<and> Disposed d v \<in> set (log t)"
    by blast
qed

lemma freed_worker_begin:
  assumes "worker_begin i s = Inr t"
  shows "freed t = (case inv_work (invs s ! i) of DisposeVar v \<Rightarrow> (freed s)(v := True) | _ \<Rightarrow> freed s)"
  using assms by (auto simp: worker_begin_def Let_def split: if_splits work.splits)

lemma disposed_worker_begin:
  assumes "worker_begin i s = Inr t" "inv_work (invs s ! i) = DisposeVar v"
  shows "Disposed i v \<in> set (log t)"
proof -
  have "t = complete_inv i (s\<lparr>invs := set_status i Running (invs s), freed := (freed s)(v := True),
       log := log s @ [Began i, Disposed i v]\<rparr>)"
    using assms by (auto simp: worker_begin_def Let_def split: if_splits)
  then show ?thesis by (simp add: log_complete_inv_mono)
qed

lemma freed_step_same:
  assumes "step c s = Inr t" "\<And>i. c \<noteq> Worker_Begin i"
  shows "freed t = freed s"
  using assms
  by (cases c)
     (auto simp: NewVariable_def NewOperator_def DeleteOperator_def Push_def PushAsync_def
        DeleteVariable_def WaitForVar_def invoke_def completion_handle_def CreateCallback_def
        OnCompleteStatic_def on_complete_def split: if_splits option.splits)

lemma freed_ok_step:
  assumes ok: "freed_ok s" and st: "step c s = Inr t"
  shows "freed_ok t"
proof (cases "\<exists>i v. c = Worker_Begin i \<and> inv_work (invs s ! i) = DisposeVar v")
  case False
  have "freed t = freed s"
  proof (cases "\<exists>i. c = Worker_Begin i")
    case True
    then obtain i where c: "c = Worker_Begin i" by blast
    then have "\<And>v. inv_work (invs s ! i) \<noteq> DisposeVar v" using False by simp
    then show ?thesis using freed_worker_begin[of i s t] st c by (auto split: work.splits)
  next
    case False
    then show ?thesis using freed_step_same[OF st] by simp
  qed
  with ok later_step[OF st] show ?thesis by (rule freed_ok_later)
next
  case True
  then obtain i v where c: "c = Worker_Begin i" and w: "inv_work (invs s ! i) = DisposeVar v"
    by blast
  have wb: "worker_begin i s = Inr t" using st c by simp
  have il: "i < length (invs s)" using wb by (auto simp: worker_begin_def split: if_splits)
  have lt: "later s t" by (rule later_step[OF st])
  have f: "freed t = (freed s)(v := True)" using freed_worker_begin[OF wb] w by simp
  show ?thesis
    unfolding freed_ok_def
  proof (intro allI impI)
    fix u assume fu: "freed t u"
    show "\<exists>d<length (invs t). inv_work (invs t ! d) = DisposeVar u \<and> Disposed d u \<in> set (log t)"
    proof (cases "u = v")
      case True
      have "i < length (invs t)" "inv_work (invs t ! i) = DisposeVar v"
        using lt il w unfolding later_def by auto
      then show ?thesis using disposed_worker_begin[OF wb w] True by blast
    next
      case False
      then have "freed s u" using fu f by simp
      then obtain d where d: "d < length (invs s)" "inv_work (invs s ! d) = DisposeVar u"
        "Disposed d u \<in> set (log s)" using ok unfolding freed_ok_def by blast
      then have "d < length (invs t)" "inv_work (invs t ! d) = DisposeVar u"
        "Disposed d u \<in> set (log t)" using lt unfolding later_def by auto
      then show ?thesis by blast
    qed
  qed
qed

lemma freed_ok_exec: "freed_ok s \<Longrightarrow> freed_ok (exec c s)"
  by (auto simp: exec_def split: sum.splits intro: freed_ok_step)

lemma freed_ok_run: "freed_ok s \<Longrightarrow> freed_ok (run cs s)"
  by (induction cs rule: rev_induct) (simp_all add: run_snoc freed_ok_exec, simp add: run_def)

lemma freed_ok_init: "freed_ok init"
  by (simp add: freed_ok_def init_def)

section \<open>Nothing ready is left waiting\<close>

lemma wait_count_cong:
  assumes "queue t = queue s" "inv_const (invs t ! i) = inv_const (invs s ! i)"
    "inv_mutable (invs t ! i) = inv_mutable (invs s ! i)"
  shows "wait_count t i = wait_count s i"
  by (simp add: wait_count_def assms)

lemma wait_count_grant: "j < length (invs s) \<Longrightarrow> wait_count (grant i s) j = wait_count s j"
  by (rule wait_count_cong) (simp_all add: grant_def)

lemma status_grant:
  "j < length (invs s) \<Longrightarrow>
   inv_status (invs (grant i s) ! j) = (if j = i \<and> can_grant s i then Ready else inv_status (invs s ! j))"
  by (simp add: grant_alt)

lemma eager_foldl_grant:
  "\<forall>j<length (invs s). wait_count (foldl (\<lambda>t i. grant i t) s js) j = wait_count s j"
  "length (invs (foldl (\<lambda>t i. grant i t) s js)) = length (invs s)"
  "\<forall>j<length (invs s). (j \<in> set js \<or> inv_status (invs s ! j) \<noteq> Waiting) \<longrightarrow>
      inv_status (invs (foldl (\<lambda>t i. grant i t) s js) ! j) = Waiting \<longrightarrow> wait_count s j \<noteq> 0"
proof (induction js rule: rev_induct)
  case Nil
  { case 1 show ?case by simp }
  { case 2 show ?case by simp }
  { case 3 show ?case by simp }
next
  case (snoc k ks)
  define t where "t = foldl (\<lambda>t i. grant i t) s ks"
  have f: "foldl (\<lambda>t i. grant i t) s (ks @ [k]) = grant k t" by (simp add: t_def)
  have len: "length (invs t) = length (invs s)" using snoc(2) by (simp add: t_def)
  have wc: "\<And>j. j < length (invs s) \<Longrightarrow> wait_count t j = wait_count s j"
    using snoc(1) by (simp add: t_def)
  { case 1 show ?case unfolding f using wc len by (simp add: wait_count_grant) }
  { case 2 show ?case unfolding f using len by simp }
  { case 3
    show ?case unfolding f
    proof (intro allI impI)
      fix j
      assume jl: "j < length (invs s)"
        and a: "j \<in> set (ks @ [k]) \<or> inv_status (invs s ! j) \<noteq> Waiting"
        and w: "inv_status (invs (grant k t) ! j) = Waiting"
      have jt: "j < length (invs t)" using jl len by simp
      have wt: "inv_status (invs t ! j) = Waiting"
        using w jt by (simp add: status_grant split: if_splits)
      show "wait_count s j \<noteq> 0"
      proof (cases "j = k")
        case True
        then have "\<not> can_grant t k" using w jt by (simp add: status_grant split: if_splits)
        then show ?thesis using wt jt True wc[OF jl] by (simp add: can_grant_def)
      next
        case False
        then have "j \<in> set ks \<or> inv_status (invs s ! j) \<noteq> Waiting" using a by simp
        then show ?thesis using snoc(3) jl wt unfolding t_def by blast
      qed
    qed }
qed

lemma eager_dispatch_ready: "eager (dispatch_ready s)"
  unfolding eager_def dispatch_ready_def
  using eager_foldl_grant[of s "[0..<length (invs s)]"] by auto

lemma eager_complete_inv: "eager (complete_inv i s)"
  by (simp add: complete_inv_def eager_dispatch_ready)

lemma eager_push_invocation:
  assumes "eager s"
  shows "eager (push_invocation cv mv p w s)"
proof -
  define n where "n = length (invs s)"
  define s1 where "s1 = s\<lparr>invs := invs s @ [\<lparr>inv_const = cv, inv_mutable = mv, inv_prop = p,
      inv_work = w, inv_status = Waiting\<rparr>], queue := enqueue n cv mv (queue s)\<rparr>"
  have t: "push_invocation cv mv p w s = grant n s1"
    by (simp add: push_invocation_def Let_def s1_def n_def)
  have len: "length (invs s1) = Suc n" by (simp add: s1_def n_def)
  have old: "wait_count s1 j = wait_count s j" if "j < n" for j
    using that by (simp add: wait_count_def s1_def n_def nth_append enqueue_def earlier_def)
  show ?thesis
    unfolding t eager_def
  proof (intro allI impI)
    fix j assume jl: "j < length (invs (grant n s1))"
      and w: "inv_status (invs (grant n s1) ! j) = Waiting"
    have j1: "j < length (invs s1)" using jl by simp
    have w1: "inv_status (invs s1 ! j) = Waiting" using w j1 by (simp add: status_grant split: if_splits)
    have "wait_count s1 j \<noteq> 0"
    proof (cases "j = n")
      case True
      then have "\<not> can_grant s1 n" using w j1 by (simp add: status_grant split: if_splits)
      then show ?thesis using True w1 j1 by (simp add: can_grant_def)
    next
      case False
      then have jn: "j < n" using j1 len by simp
      then have "inv_status (invs s ! j) = Waiting" using w1 by (simp add: s1_def n_def nth_append)
      then show ?thesis using assms jn old[OF jn] by (simp add: eager_def n_def)
    qed
    then show "wait_count (grant n s1) j \<noteq> 0" using j1 by (simp add: wait_count_grant)
  qed
qed

lemma eager_same:
  assumes "eager s" "invs t = invs s" "queue t = queue s"
  shows "eager t"
  using assms by (simp add: eager_def wait_count_def)

lemma eager_worker_begin:
  assumes "eager s" "worker_begin i s = Inr t"
  shows "eager t"
proof -
  have il: "i < length (invs s)" and ir: "inv_status (invs s ! i) = Ready"
    using assms(2) by (auto simp: worker_begin_def split: if_splits)
  show ?thesis
  proof (cases "inv_work (invs s ! i)")
    case UserFn
    then have t: "t = s\<lparr>invs := set_status i Running (invs s), log := log s @ [Began i]\<rparr>"
      using assms(2) il ir by (simp add: worker_begin_def)
    show ?thesis unfolding eager_def t using assms(1) il ir
      by (auto simp: eager_def wait_count_def split: if_splits)
  next
    case (OprFn h)
    then have t: "t = s\<lparr>invs := set_status i Running (invs s), log := log s @ [Began i]\<rparr>"
      using assms(2) il ir by (simp add: worker_begin_def)
    show ?thesis unfolding eager_def t using assms(1) il ir
      by (auto simp: eager_def wait_count_def split: if_splits)
  next
    case (DisposeVar v)
    then show ?thesis using assms(2) il ir
      by (auto simp: worker_begin_def Let_def eager_complete_inv)
  next
    case (WaitVar v)
    then obtain u where "t = (complete_inv i u)\<lparr>log := log (complete_inv i u) @ [Released i]\<rparr>"
      using assms(2) il ir by (auto simp: worker_begin_def Let_def)
    then show ?thesis using eager_complete_inv[of i u] by (auto intro: eager_same)
  qed
qed

lemma eager_step:
  assumes "eager s" "step c s = Inr t"
  shows "eager t"
proof (cases c)
  case Call_NewVariable
  then show ?thesis using assms by (auto simp: NewVariable_def intro: eager_same)
next
  case (Call_NewOperator cv mv p)
  then show ?thesis using assms
    by (auto simp: NewOperator_def split: if_splits intro: eager_same)
next
  case (Call_DeleteOperator h)
  then show ?thesis using assms
    by (auto simp: DeleteOperator_def split: option.splits intro: eager_same)
next
  case (Call_Push h)
  then show ?thesis using assms
    by (auto simp: Push_def split: option.splits intro!: eager_push_invocation intro: eager_same)
next
  case (Call_PushAsync cv mv p)
  then show ?thesis using assms by (auto simp: PushAsync_def intro: eager_push_invocation)
next
  case (Call_DeleteVariable v)
  then show ?thesis using assms by (auto simp: DeleteVariable_def intro: eager_push_invocation)
next
  case (Call_WaitForVar v)
  then show ?thesis using assms by (auto simp: WaitForVar_def intro: eager_push_invocation)
next
  case (Worker_Begin i)
  then show ?thesis using assms by (auto intro: eager_worker_begin)
next
  case (Invoke_Callback i)
  then show ?thesis using assms
    by (auto simp: invoke_def completion_handle_def CreateCallback_def OnCompleteStatic_def
        on_complete_def eager_complete_inv split: if_splits)
next
  case (Manager_Reclaim h)
  then show ?thesis using assms by (auto intro: eager_same)
qed

lemma eager_exec: "eager s \<Longrightarrow> eager (exec c s)"
  by (auto simp: exec_def split: sum.splits intro: eager_step)

lemma eager_run: "eager s \<Longrightarrow> eager (run cs s)"
  by (induction cs rule: rev_induct) (simp_all add: run_snoc eager_exec, simp add: run_def)

lemma eager_init: "eager init"
  by (simp add: eager_def init_def)

section \<open>Invocation counts of operators\<close>

lemma filter_update_length:
  "i < length xs \<Longrightarrow>
   length (filter P (xs[i := y])) + (if P (xs ! i) then 1 else 0)
   = length (filter P xs) + (if P y then 1 else 0)"
proof (induction xs arbitrary: i)
  case Nil
  then show ?case by simp
next
  case (Cons x xs)
  show ?case
  proof (cases i)
    case 0
    then show ?thesis by simp
  next
    case (Suc k)
    then have "k < length xs" using Cons.prems by simp
    from Cons.IH[OF this] show ?thesis using Suc by simp
  qed
qed

lemma outstanding_keep:
  assumes "i < length (invs s)" "inv_status (invs s ! i) \<noteq> Done" "st \<noteq> Done"
    "invs t = set_status i st (invs s)"
  shows "outstanding t h = outstanding s h"
  using filter_update_length[OF assms(1),
      of "\<lambda>x. inv_work x = OprFn h \<and> inv_status x \<noteq> Done" "(invs s ! i)\<lparr>inv_status := st\<rparr>"]
    assms(2,3)
  by (simp add: outstanding_def assms(4) set_status_def)

lemma outstanding_done:
  assumes "i < length (invs s)" "inv_status (invs s ! i) \<noteq> Done"
    "invs t = set_status i Done (invs s)"
  shows "outstanding t h + (if inv_work (invs s ! i) = OprFn h then 1 else 0) = outstanding s h"
  using filter_update_length[OF assms(1),
      of "\<lambda>x. inv_work x = OprFn h \<and> inv_status x \<noteq> Done" "(invs s ! i)\<lparr>inv_status := Done\<rparr>"]
    assms(2)
  by (simp add: outstanding_def assms(3) set_status_def)

lemma outstanding_append:
  assumes "invs t = invs s @ [x]" "inv_status x = Waiting"
  shows "outstanding t h = outstanding s h + (if inv_work x = OprFn h then 1 else 0)"
  by (simp add: outstanding_def assms)

lemma outstanding_grant [simp]: "outstanding (grant i s) h = outstanding s h"
proof (cases "can_grant s i")
  case True
  then show ?thesis
    by (intro outstanding_keep[where i = i and st = Ready])
       (simp_all add: can_grant_def grant_def)
next
  case False
  then show ?thesis by (simp add: grant_alt)
qed

lemma outstanding_dispatch_ready [simp]: "outstanding (dispatch_ready s) h = outstanding s h"
  by (rule dispatch_ready_preserves[where P = "\<lambda>t. outstanding t h = outstanding s h"]) simp_all

lemma oprs_dispatch_ready [simp]:
  "oprs (dispatch_ready s) = oprs s" "next_opr (dispatch_ready s) = next_opr s"
  by (rule dispatch_ready_preserves[where P = "\<lambda>t. oprs t = oprs s"], simp_all)
     (rule dispatch_ready_preserves[where P = "\<lambda>t. next_opr t = next_opr s"], simp_all)

lemma opr_ok_same:
  assumes "opr_ok s" "oprs t = oprs s" "next_opr t = next_opr s"
    "\<And>h. outstanding t h = outstanding s h"
  shows "opr_ok t"
proof -
  have "opr_ok t = opr_ok s" unfolding opr_ok_def assms(2-4) by (rule refl)
  then show ?thesis using assms(1) by simp
qed

lemma opr_ok_reclaim:
  assumes "opr_ok s"
  shows "opr_ok (reclaim h s)"
proof -
  have o: "outstanding (reclaim h s) k = outstanding s k" for k by (simp add: outstanding_def)
  show ?thesis
    unfolding opr_ok_def
  proof
    fix k
    from assms have "case oprs s k of Some d \<Rightarrow> opr_count d = outstanding s k \<and> k < next_opr s
                    | None \<Rightarrow> outstanding s k = 0" unfolding opr_ok_def by blast
    then show "case oprs (reclaim h s) k of
                 Some d \<Rightarrow> opr_count d = outstanding (reclaim h s) k \<and> k < next_opr (reclaim h s)
               | None \<Rightarrow> outstanding (reclaim h s) k = 0"
      unfolding o by (auto simp: reclaim_def split: option.splits)
  qed
qed

lemma opr_ok_push_invocation:
  assumes "opr_ok s" "\<And>h. w \<noteq> OprFn h"
  shows "opr_ok (push_invocation cv mv p w s)"
proof -
  define x where "x = \<lparr>inv_const = cv, inv_mutable = mv, inv_prop = p, inv_work = w,
                        inv_status = Waiting\<rparr>"
  define s1 where "s1 = s\<lparr>invs := invs s @ [x], queue := enqueue (length (invs s)) cv mv (queue s)\<rparr>"
  have t: "push_invocation cv mv p w s = grant (length (invs s)) s1"
    by (simp add: push_invocation_def Let_def s1_def x_def)
  have "outstanding s1 h = outstanding s h" for h
    using outstanding_append[of s1 s x h] assms(2) by (simp add: s1_def x_def)
  then show ?thesis unfolding t
    by (intro opr_ok_same[OF assms(1)]) (simp_all add: s1_def)
qed

lemma opr_ok_Push:
  assumes ok: "opr_ok s" and d: "oprs s h = Some d"
  shows "opr_ok (push_invocation cv mv p (OprFn h)
                  (s\<lparr>oprs := (oprs s)(h \<mapsto> d\<lparr>opr_count := Suc (opr_count d)\<rparr>)\<rparr>))"
proof -
  define s0 where "s0 = s\<lparr>oprs := (oprs s)(h \<mapsto> d\<lparr>opr_count := Suc (opr_count d)\<rparr>)\<rparr>"
  define x where "x = \<lparr>inv_const = cv, inv_mutable = mv, inv_prop = p, inv_work = OprFn h,
                        inv_status = Waiting\<rparr>"
  define s1 where "s1 = s0\<lparr>invs := invs s0 @ [x], queue := enqueue (length (invs s0)) cv mv (queue s0)\<rparr>"
  define t where "t = grant (length (invs s0)) s1"
  have t: "push_invocation cv mv p (OprFn h) s0 = t"
    by (simp add: push_invocation_def Let_def s1_def x_def t_def)
  have o: "outstanding t k = outstanding s k + (if k = h then 1 else 0)" for k
    using outstanding_append[of s1 s x k] by (simp add: t_def s1_def s0_def x_def)
  have op: "oprs t = (oprs s)(h \<mapsto> d\<lparr>opr_count := Suc (opr_count d)\<rparr>)"
    and n: "next_opr t = next_opr s" by (simp_all add: t_def s1_def s0_def)
  have "opr_ok t"
    unfolding opr_ok_def
  proof
    fix k
    from ok have "case oprs s k of Some d \<Rightarrow> opr_count d = outstanding s k \<and> k < next_opr s
                    | None \<Rightarrow> outstanding s k = 0" unfolding opr_ok_def by blast
    then show "case oprs t k of Some d \<Rightarrow> opr_count d = outstanding t k \<and> k < next_opr t
               | None \<Rightarrow> outstanding t k = 0"
      using d unfolding op n o by (auto split: option.splits)
  qed
  then show ?thesis using t by (simp add: s0_def)
qed

lemma opr_ok_complete_inv:
  assumes ok: "opr_ok s" and il: "i < length (invs s)" and ir: "inv_status (invs s ! i) = Running"
  shows "opr_ok (complete_inv i s)"
proof -
  define s1 where "s1 = s\<lparr>invs := set_status i Done (invs s),
             queue := (\<lambda>v. filter (\<lambda>e. fst e \<noteq> i) (queue s v)),
             version := (\<lambda>v. if v \<in> set (inv_mutable (invs s ! i))
                              then Suc (version s v) else version s v),
             log := log s @ [Completed i]\<rparr>"
  define w where "w = inv_work (invs s ! i)"
  have t: "complete_inv i s = dispatch_ready (release_operator w s1)"
    by (simp add: complete_inv_def s1_def w_def)
  have o: "outstanding s1 k + (if w = OprFn k then 1 else 0) = outstanding s k" for k
    unfolding w_def by (rule outstanding_done[OF il]) (simp_all add: ir s1_def)
  have op: "oprs s1 = oprs s" and n: "next_opr s1 = next_opr s" by (simp_all add: s1_def)
  have okk: "case oprs s k of Some d \<Rightarrow> opr_count d = outstanding s k \<and> k < next_opr s
                    | None \<Rightarrow> outstanding s k = 0" for k
    using ok unfolding opr_ok_def by blast
  have "opr_ok (release_operator w s1)"
  proof (cases "\<exists>h. w = OprFn h")
    case False
    then have r: "release_operator w s1 = s1" by (cases w) (simp_all add: release_operator_def)
    have "outstanding s1 k = outstanding s k" for k using o[of k] False by simp
    then show ?thesis unfolding r by (intro opr_ok_same[OF ok]) (simp_all add: op n)
  next
    case True
    then obtain h where w: "w = OprFn h" by blast
    have "outstanding s h \<noteq> 0" using o[of h] w by simp
    then obtain d where d: "oprs s h = Some d" using okk[of h] by (auto split: option.splits)
    define s2 where "s2 = s1\<lparr>oprs := (oprs s1)(h \<mapsto> d\<lparr>opr_count := opr_count d - 1\<rparr>)\<rparr>"
    have r: "release_operator w s1 = reclaim h s2"
      by (simp add: release_operator_def w op d s2_def)
    have o2: "outstanding s2 k = outstanding s1 k" for k by (simp add: outstanding_def s2_def)
    have "opr_ok s2"
      unfolding opr_ok_def
    proof
      fix k
      show "case oprs s2 k of Some d \<Rightarrow> opr_count d = outstanding s2 k \<and> k < next_opr s2
               | None \<Rightarrow> outstanding s2 k = 0"
        using okk[of k] o[of k] d w unfolding o2
        by (auto simp: s2_def op n split: option.splits)
    qed
    then show ?thesis unfolding r by (rule opr_ok_reclaim)
  qed
  then show ?thesis unfolding t by (rule opr_ok_same) simp_all
qed

lemma opr_ok_worker_begin:
  assumes ok: "opr_ok s" and wb: "worker_begin i s = Inr t"
  shows "opr_ok t"
proof -
  have il: "i < length (invs s)" and ir: "inv_status (invs s ! i) = Ready"
    using wb by (auto simp: worker_begin_def split: if_splits)
  define s1 where "s1 = s\<lparr>invs := set_status i Running (invs s), log := log s @ [Began i]\<rparr>"
  have o1: "outstanding s1 h = outstanding s h" for h
    by (rule outstanding_keep[OF il, where st = Running]) (simp_all add: ir s1_def)
  have s1: "opr_ok s1" by (rule opr_ok_same[OF ok]) (simp_all add: o1, simp_all add: s1_def)
  have run1: "i < length (invs s1)" "inv_status (invs s1 ! i) = Running"
    using il by (simp_all add: s1_def)
  show ?thesis
  proof (cases "inv_work (invs s ! i)")
    case UserFn
    then have "t = s1" using wb il ir by (simp add: worker_begin_def s1_def)
    then show ?thesis using s1 by simp
  next
    case (OprFn h)
    then have "t = s1" using wb il ir by (simp add: worker_begin_def s1_def)
    then show ?thesis using s1 by simp
  next
    case (DisposeVar v)
    define s2 where "s2 = s1\<lparr>freed := (freed s1)(v := True), log := log s1 @ [Disposed i v]\<rparr>"
    have t: "t = complete_inv i s2"
      using wb il ir DisposeVar by (simp add: worker_begin_def s1_def s2_def Let_def)
    have "opr_ok s2"
      by (rule opr_ok_same[OF s1]) (simp_all add: s2_def outstanding_def)
    moreover have "i < length (invs s2)" "inv_status (invs s2 ! i) = Running"
      using il by (simp_all add: s2_def s1_def)
    ultimately show ?thesis unfolding t by (rule opr_ok_complete_inv)
  next
    case (WaitVar v)
    define s2 where "s2 = complete_inv i s1"
    have t: "t = s2\<lparr>log := log s2 @ [Released i]\<rparr>"
      using wb il ir WaitVar by (simp add: worker_begin_def s1_def s2_def Let_def)
    have s2: "opr_ok s2" unfolding s2_def using s1 run1 by (rule opr_ok_complete_inv)
    show ?thesis unfolding t by (rule opr_ok_same[OF s2]) (simp_all add: outstanding_def)
  qed
qed

lemma opr_ok_NewOperator:
  assumes ok: "opr_ok s" and n: "NewOperator fn cv mv p s = Inr (h, t)"
  shows "opr_ok t"
proof -
  have h: "h = next_opr s"
    and t: "t = s\<lparr>oprs := (oprs s)(next_opr s \<mapsto>
                      \<lparr>opr_const = cv, opr_mutable = mv, opr_prop = p,
                       opr_deleted = False, opr_count = 0\<rparr>),
                  next_opr := Suc (next_opr s)\<rparr>"
    using n by (auto simp: NewOperator_def split: if_splits)
  have o: "outstanding t k = outstanding s k" for k by (simp add: outstanding_def t)
  show ?thesis
    unfolding opr_ok_def
  proof
    fix k
    from ok have a: "case oprs s k of Some d \<Rightarrow> opr_count d = outstanding s k \<and> k < next_opr s
                    | None \<Rightarrow> outstanding s k = 0" unfolding opr_ok_def by blast
    show "case oprs t k of Some d \<Rightarrow> opr_count d = outstanding t k \<and> k < next_opr t
               | None \<Rightarrow> outstanding t k = 0"
      using a unfolding o by (auto simp: t split: option.splits)
  qed
qed

lemma opr_ok_DeleteOperator:
  assumes ok: "opr_ok s"
  shows "opr_ok (DeleteOperator h s)"
proof -
  have o: "outstanding (DeleteOperator h s) k = outstanding s k" for k
    by (simp add: outstanding_def DeleteOperator_def split: option.splits)
  show ?thesis
    unfolding opr_ok_def
  proof
    fix k
    from ok have a: "case oprs s k of Some d \<Rightarrow> opr_count d = outstanding s k \<and> k < next_opr s
                    | None \<Rightarrow> outstanding s k = 0" unfolding opr_ok_def by blast
    show "case oprs (DeleteOperator h s) k of
              Some d \<Rightarrow> opr_count d = outstanding (DeleteOperator h s) k \<and> k < next_opr (DeleteOperator h s)
            | None \<Rightarrow> outstanding (DeleteOperator h s) k = 0"
      using a unfolding o by (auto simp: DeleteOperator_def split: option.splits)
  qed
qed

lemma opr_ok_step:
  assumes "opr_ok s" "step c s = Inr t"
  shows "opr_ok t"
proof (cases c)
  case Call_NewVariable
  then show ?thesis using assms
    by (auto simp: NewVariable_def outstanding_def intro!: opr_ok_same[OF assms(1)])
next
  case (Call_NewOperator cv mv p)
  then obtain h where "NewOperator () cv mv p s = Inr (h, t)"
    using assms(2) by (cases "NewOperator () cv mv p s") auto
  then show ?thesis using assms(1) by (rule opr_ok_NewOperator[rotated])
next
  case (Call_DeleteOperator h)
  then show ?thesis using assms by (auto intro: opr_ok_DeleteOperator)
next
  case (Call_Push h)
  then show ?thesis using assms
    by (auto simp: Push_def split: option.splits intro: opr_ok_Push)
next
  case (Call_PushAsync cv mv p)
  then show ?thesis using assms by (auto simp: PushAsync_def intro: opr_ok_push_invocation)
next
  case (Call_DeleteVariable v)
  then show ?thesis using assms by (auto simp: DeleteVariable_def intro: opr_ok_push_invocation)
next
  case (Call_WaitForVar v)
  then show ?thesis using assms by (auto simp: WaitForVar_def intro: opr_ok_push_invocation)
next
  case (Worker_Begin i)
  then show ?thesis using assms by (auto intro: opr_ok_worker_begin)
next
  case (Invoke_Callback i)
  then show ?thesis using assms
    by (auto simp: invoke_def completion_handle_def CreateCallback_def OnCompleteStatic_def
        on_complete_def split: if_splits intro: opr_ok_complete_inv)
next
  case (Manager_Reclaim h)
  then show ?thesis using assms by (auto intro: opr_ok_reclaim)
qed

lemma opr_ok_exec: "opr_ok s \<Longrightarrow> opr_ok (exec c s)"
  by (auto simp: exec_def split: sum.splits intro: opr_ok_step)

lemma opr_ok_run: "opr_ok s \<Longrightarrow> opr_ok (run cs s)"
  by (induction cs rule: rev_induct) (simp_all add: run_snoc opr_ok_exec, simp add: run_def)

lemma opr_ok_init: "opr_ok init"
  by (simp add: opr_ok_def init_def outstanding_def)

section \<open>The guarantees of the scheduler\<close>

lemma grant_fields:
  "j < length (invs s) \<Longrightarrow> inv_work (invs (grant i s) ! j) = inv_work (invs s ! j)"
  "j < length (invs s) \<Longrightarrow> inv_const (invs (grant i s) ! j) = inv_const (invs s ! j)"
  "j < length (invs s) \<Longrightarrow> inv_mutable (invs (grant i s) ! j) = inv_mutable (invs s ! j)"
  by (simp_all add: grant_alt)

lemma push_invocation_new:
  "length (invs s) < length (invs (push_invocation cv mv p w s))"
  "inv_work (invs (push_invocation cv mv p w s) ! length (invs s)) = w"
  "inv_const (invs (push_invocation cv mv p w s) ! length (invs s)) = cv"
  "inv_mutable (invs (push_invocation cv mv p w s) ! length (invs s)) = mv"
  by (simp_all add: push_invocation_def Let_def grant_fields)

lemma distinct_count_list: "distinct xs \<Longrightarrow> count_list xs x = (if x \<in> set xs then 1 else 0)"
  by (induction xs) auto

lemma reachable:
  "sound (run cs init)" "freed_ok (run cs init)" "eager (run cs init)" "opr_ok (run cs init)"
  by (simp_all add: sound_run sound_init freed_ok_run freed_ok_init eager_run eager_init
      opr_ok_run opr_ok_init)

lemma granted_if_begun:
  assumes "sound s" "Began i \<in> set (log s)"
  shows "before (Granted i) (Began i) (log s)" "Granted i \<in> set (log s)"
proof -
  show "before (Granted i) (Began i) (log s)"
    using soundD(5)[OF assms(1)] assms(2) by (simp add: begun_after_grant_def)
  then show "Granted i \<in> set (log s)" by (simp add: before_mem)
qed

lemma completed_before_begun:
  assumes snd: "sound s" and ab: "a < b" and bl: "b < length (invs s)"
    and cf: "conflict (invs s ! a) (invs s ! b) v" and bg: "Began b \<in> set (log s)"
  shows "before (Completed a) (Began b) (log s)"
proof -
  note g = granted_if_begun[OF snd bg]
  have "before (Completed a) (Granted b) (log s)"
    using soundD(4)[OF snd] ab bl cf g(2) unfolding ordered_def by blast
  from before_trans[OF this g(1)] show ?thesis .
qed

text \<open>
  C1. Per-variable serializability. In every run of the engine, for invocations \<open>a\<close>
  submitted before \<open>b\<close> and a variable \<open>v\<close> of both: when \<open>b\<close> writes \<open>v\<close> and \<open>a\<close> reads
  or writes it, \<open>b\<close> is granted only after \<open>a\<close> has completed; when \<open>b\<close> reads \<open>v\<close> and
  \<open>a\<close> writes it, likewise; and of two writers of \<open>v\<close>, the later begins its execution only
  after the completion callback of the earlier has fired.
\<close>

theorem per_variable_serializability:
  assumes "s = run cs init" and "a < b" and "b < length (invs s)"
  shows "(v \<in> set (inv_mutable (invs s ! b))
          \<and> (v \<in> set (inv_const (invs s ! a)) \<or> v \<in> set (inv_mutable (invs s ! a)))
          \<and> Granted b \<in> set (log s)
          \<longrightarrow> before (Completed a) (Granted b) (log s))
       \<and> (v \<in> set (inv_const (invs s ! b)) \<and> v \<in> set (inv_mutable (invs s ! a))
          \<and> Granted b \<in> set (log s)
          \<longrightarrow> before (Completed a) (Granted b) (log s))
       \<and> (v \<in> set (inv_mutable (invs s ! b)) \<and> v \<in> set (inv_mutable (invs s ! a))
          \<and> Began b \<in> set (log s)
          \<longrightarrow> before (Completed a) (Began b) (log s))"
proof -
  have snd: "sound s" unfolding assms(1) by (rule reachable)
  have g: "before (Completed a) (Granted b) (log s)"
    if "conflict (invs s ! a) (invs s ! b) v" "Granted b \<in> set (log s)"
    using soundD(4)[OF snd] assms(2,3) that unfolding ordered_def by blast
  have b: "before (Completed a) (Began b) (log s)"
    if "conflict (invs s ! a) (invs s ! b) v" "Began b \<in> set (log s)"
    using completed_before_begun[OF snd assms(2,3)] that by blast
  show ?thesis using g b unfolding conflict_def by blast
qed

lemma serial_log: "log (run serial_example init) =
  [Granted 0, Began 0, Completed 0, Granted 1, Began 1, Completed 1, Granted 2, Began 2]"
  by code_simp

lemma serial_invs2: "invs (run serial_example init) =
  [\<lparr>inv_const = [], inv_mutable = [0], inv_prop = kNormal, inv_work = UserFn, inv_status = Done\<rparr>,
   \<lparr>inv_const = [0], inv_mutable = [], inv_prop = kNormal, inv_work = UserFn, inv_status = Done\<rparr>,
   \<lparr>inv_const = [], inv_mutable = [0], inv_prop = kNormal, inv_work = UserFn, inv_status = Running\<rparr>]"
  by code_simp

theorem per_variable_serializability_witness:
  "(0::nat) < 2 \<and> 2 < length (invs (run serial_example init))
   \<and> 0 \<in> set (inv_mutable (invs (run serial_example init) ! 0))
   \<and> 0 \<in> set (inv_const (invs (run serial_example init) ! 1))
   \<and> 0 \<in> set (inv_mutable (invs (run serial_example init) ! 2))
   \<and> Granted 1 \<in> set (log (run serial_example init))
   \<and> Granted 2 \<in> set (log (run serial_example init))
   \<and> Began 2 \<in> set (log (run serial_example init))
   \<and> before (Completed 0) (Granted 1) (log (run serial_example init))
   \<and> before (Completed 0) (Granted 2) (log (run serial_example init))
   \<and> before (Completed 1) (Granted 2) (log (run serial_example init))
   \<and> before (Completed 0) (Began 2) (log (run serial_example init))"
  using per_variable_serializability[OF refl, of 0 2 serial_example 0]
    per_variable_serializability[OF refl, of 0 1 serial_example 0]
    per_variable_serializability[OF refl, of 1 2 serial_example 0]
  by (simp add: serial_log serial_invs2)

text \<open>
  C4. A completion handle bound to an invocation completes it once. After an invocation of
  the handle has succeeded, every further invocation, at once or after any further activity
  of the engine, is detected and rejected with \<open>AlreadyCompleted\<close> and leaves the engine as
  it is; and no run logs the completion of one invocation twice.
\<close>

theorem double_completion_rejected:
  assumes "invoke (completion_handle e i) s = Inr s1"
  shows "invoke (completion_handle e i) s1 = Inl AlreadyCompleted
       \<and> invoke (completion_handle e i) (run cs s1) = Inl AlreadyCompleted
       \<and> exec (Invoke_Callback i) (run cs s1) = run cs s1
       \<and> count_list (log (run cs' init)) (Completed i) \<le> 1"
proof -
  have inv: "invoke (completion_handle e i) t = on_complete i t" for t
    by (simp add: invoke_def completion_handle_def CreateCallback_def OnCompleteStatic_def)
  have stp: "invoke (completion_handle () i) t = on_complete i t" for t
    by (simp add: invoke_def completion_handle_def CreateCallback_def OnCompleteStatic_def)
  have il: "i < length (invs s)" and s1: "s1 = complete_inv i s"
    using assms by (auto simp: inv on_complete_def split: if_splits)
  define s' where "s' = s\<lparr>invs := set_status i Done (invs s),
             queue := (\<lambda>v. filter (\<lambda>e. fst e \<noteq> i) (queue s v)),
             version := (\<lambda>v. if v \<in> set (inv_mutable (invs s ! i))
                              then Suc (version s v) else version s v),
             log := log s @ [Completed i]\<rparr>"
  have "later s' (dispatch_ready (release_operator (inv_work (invs s ! i)) s'))"
    by (rule later_trans[OF later_same later_dispatch_ready]) simp_all
  then have "later s' s1" by (simp add: s1 complete_inv_def s'_def)
  moreover have "i < length (invs s')" "inv_status (invs s' ! i) = Done"
    using il by (simp_all add: s'_def)
  ultimately have d1: "i < length (invs s1)" "inv_status (invs s1 ! i) = Done"
    unfolding later_def by auto
  have "later s1 (run cs s1)" by (rule later_run)
  then have d2: "i < length (invs (run cs s1))" "inv_status (invs (run cs s1) ! i) = Done"
    using d1 unfolding later_def by auto
  have "distinct (log (run cs' init))" by (rule soundD(8)[OF reachable(1)])
  then have "count_list (log (run cs' init)) (Completed i) \<le> 1"
    by (simp add: distinct_count_list)
  then show ?thesis using d1 d2 by (simp add: inv stp on_complete_def exec_def)
qed

lemma wait_writer_before: "invs (run running_writer init) =
  [\<lparr>inv_const = [], inv_mutable = [0], inv_prop = kNormal, inv_work = UserFn, inv_status = Running\<rparr>]"
  by code_simp

lemma first_completion:
  "invoke (completion_handle () 0) (run running_writer init)
   = Inr (complete_inv 0 (run running_writer init))"
  by (simp add: invoke_def completion_handle_def CreateCallback_def OnCompleteStatic_def
      on_complete_def wait_writer_before)

theorem double_completion_rejected_witness:
  "invoke (completion_handle () 0) (run running_writer init)
     = Inr (complete_inv 0 (run running_writer init))
   \<and> invoke (completion_handle () 0) (complete_inv 0 (run running_writer init))
     = Inl AlreadyCompleted
   \<and> invoke (completion_handle () 0)
       (run wait_then_release (complete_inv 0 (run running_writer init)))
     = Inl AlreadyCompleted
   \<and> exec (Invoke_Callback 0)
       (run wait_then_release (complete_inv 0 (run running_writer init)))
     = run wait_then_release (complete_inv 0 (run running_writer init))
   \<and> count_list (log (run completed_twice init))
       (Completed 0) \<le> 1"
  using double_completion_rejected[OF first_completion,
      of wait_then_release completed_twice]
    first_completion
  by simp

text \<open>
  C5. Registering an operator whose const-variables and mutable-variables share a variable
  is rejected at the call with a contract violation, and nothing is stored: the state of
  the engine is unchanged.
\<close>

theorem NewOperator_rejects_overlap:
  assumes "v \<in> set const_vars" and "v \<in> set mutable_vars"
  shows "NewOperator fn const_vars mutable_vars prop s = Inl ContractViolation
       \<and> exec (Call_NewOperator const_vars mutable_vars prop) s = s"
proof -
  have "list_ex (\<lambda>v. v \<in> set mutable_vars) const_vars" using assms by (auto simp: list_ex_iff)
  then show ?thesis by (simp add: NewOperator_def exec_def)
qed

theorem NewOperator_rejects_overlap_witness:
  "(0::nat) \<in> set [0] \<and> (0::nat) \<in> set [0, 1]
   \<and> NewOperator () [0] [0, 1] kNormal init = Inl ContractViolation
   \<and> exec (Call_NewOperator [0] [0, 1] kNormal) init = init"
  using NewOperator_rejects_overlap[of 0 "[0]" "[0, 1]" "()" kNormal init] by simp









text \<open>
  C7. \<^verbatim>\<open>DeleteOperator\<close> does not free the descriptor: it leaves it stored, marked as
  deleted. In every run the invocation count of a stored descriptor is the number of its
  invocations that have not completed, and a handle whose descriptor is gone has no such
  invocation, so a descriptor stays as long as one of its invocations is outstanding. The
  deletion manager frees a descriptor exactly when it is marked and its count is zero.
  Marking twice is marking once.
\<close>

theorem DeleteOperator_deferred:
  assumes "s = run cs init"
  shows "(oprs s h = Some d \<longrightarrow> oprs (DeleteOperator h s) h = Some (d\<lparr>opr_deleted := True\<rparr>))
       \<and> (oprs s h = Some d \<longrightarrow> opr_count d = outstanding s h)
       \<and> (oprs s h = None \<longrightarrow> outstanding s h = 0)
       \<and> (oprs s h = Some d \<longrightarrow>
            (oprs (reclaim h s) h = None \<longleftrightarrow> opr_deleted d \<and> opr_count d = 0))
       \<and> DeleteOperator h (DeleteOperator h s) = DeleteOperator h s"
proof -
  have ok: "opr_ok s" unfolding assms by (rule reachable)
  then have "case oprs s h of Some d \<Rightarrow> opr_count d = outstanding s h \<and> h < next_opr s
                    | None \<Rightarrow> outstanding s h = 0" unfolding opr_ok_def by blast
  then have "oprs s h = Some d \<longrightarrow> opr_count d = outstanding s h"
    "oprs s h = None \<longrightarrow> outstanding s h = 0" by (auto split: option.splits)
  moreover have "DeleteOperator h (DeleteOperator h s) = DeleteOperator h s"
    by (simp add: DeleteOperator_def split: option.splits)
  moreover have "oprs s h = Some d \<longrightarrow> oprs (DeleteOperator h s) h = Some (d\<lparr>opr_deleted := True\<rparr>)"
    by (simp add: DeleteOperator_def)
  moreover have "oprs s h = Some d \<longrightarrow>
            (oprs (reclaim h s) h = None \<longleftrightarrow> opr_deleted d \<and> opr_count d = 0)"
    by (simp add: reclaim_def)
  ultimately show ?thesis by blast
qed

lemma operator_in_use_state:
  "oprs (run operator_in_use init) 0 =
     Some \<lparr>opr_const = [0], opr_mutable = [1], opr_prop = kNormal, opr_deleted = False, opr_count = 1\<rparr>"
  "outstanding (run operator_in_use init) 0 = 1"
  by code_simp+

lemma operator_drained_state:
  "oprs (run operator_drained init) 0 = None"
  "outstanding (run operator_drained init) 0 = 0"
  by code_simp+

theorem DeleteOperator_deferred_witness:
  "oprs (run operator_in_use init) 0 =
     Some \<lparr>opr_const = [0], opr_mutable = [1], opr_prop = kNormal, opr_deleted = False, opr_count = 1\<rparr>
   \<and> oprs (DeleteOperator 0 (run operator_in_use init)) 0 =
     Some \<lparr>opr_const = [0], opr_mutable = [1], opr_prop = kNormal, opr_deleted = True, opr_count = 1\<rparr>
   \<and> outstanding (run operator_in_use init) 0 = 1
   \<and> oprs (reclaim 0 (run operator_in_use init)) 0 \<noteq> None
   \<and> oprs (run operator_drained init) 0 = None
   \<and> outstanding (run operator_drained init) 0 = 0"
  using DeleteOperator_deferred[OF refl, of operator_in_use 0
      "\<lparr>opr_const = [0], opr_mutable = [1], opr_prop = kNormal, opr_deleted = False, opr_count = 1\<rparr>"]
    DeleteOperator_deferred[OF refl, of operator_drained 0]
  by (simp add: operator_in_use_state operator_drained_state)

subsection \<open>What the entry of a wait waits for\<close>

lemma wait_reader_before: "invs (run running_reader init) =
  [\<lparr>inv_const = [0], inv_mutable = [], inv_prop = kNormal, inv_work = UserFn, inv_status = Running\<rparr>]"
  by code_simp

lemma wait_reader_log:
  "log (run (running_reader @ Call_WaitForVar 0 # wait_begun) init) =
   [Granted 0, Began 0, Granted 1, Began 1, Completed 1, Released 1]"
  by code_simp

text \<open>
  The read-class entry of 4.7 waits, by the counting of 4.3, for the earlier writers of
  its variable and not for the earlier readers: with a reader of variable 0 running, the
  entry of a wait on variable 0 is granted, run and released while the reader has not
  completed.
\<close>

lemma wait_released_behind_reader:
  "(0::nat) < length (invs (run running_reader init))
   \<and> 0 \<in> set (inv_const (invs (run running_reader init) ! 0))
   \<and> Released (length (invs (run running_reader init)))
       \<in> set (log (run (running_reader @ Call_WaitForVar 0 # wait_begun) init))
   \<and> Completed 0 \<notin> set (log (run (running_reader @ Call_WaitForVar 0 # wait_begun) init))
   \<and> \<not> before (Completed 0) (Released (length (invs (run running_reader init))))
       (log (run (running_reader @ Call_WaitForVar 0 # wait_begun) init))"
  by (simp add: wait_reader_before wait_reader_log)

text \<open>
  The read-class entry of a wait on \<open>v\<close> is released only after every write access on \<open>v\<close>
  submitted before it has completed.
\<close>

lemma wait_released_after_writers:
  assumes "s0 = run cs init" and "w = length (invs s0)"
    and "s = run (cs @ Call_WaitForVar v # cs') init"
    and "a < w" and "v \<in> set (inv_mutable (invs s0 ! a))" and "Released w \<in> set (log s)"
  shows "before (Completed a) (Released w) (log s)"
proof -
  define s1 where "s1 = WaitForVar v s0"
  have s: "s = run cs' s1"
    by (simp add: assms(1,3) run_append s1_def run_def exec_def)
  have snd: "sound s" unfolding assms(3) by (rule reachable)
  have l01: "later s0 s1" unfolding s1_def WaitForVar_def by (rule later_push_invocation)
  have l1: "later s1 s" unfolding s by (rule later_run)
  have l0: "later s0 s" by (rule later_trans[OF l01 l1])
  have w1: "w < length (invs s1)" "inv_const (invs s1 ! w) = [v]"
    unfolding s1_def WaitForVar_def assms(2) by (simp_all add: push_invocation_new)
  have wl: "w < length (invs s)" and wc: "inv_const (invs s ! w) = [v]"
    using l1 w1 unfolding later_def by auto
  have am: "v \<in> set (inv_mutable (invs s ! a))"
    using l0 assms(2,4,5) unfolding later_def by auto
  have cf: "conflict (invs s ! a) (invs s ! w) v" using wc am by (simp add: conflict_def)
  have br: "before (Began w) (Released w) (log s)"
    using pseudo_logD(3)[OF soundD(6)[OF snd] assms(6)] by simp
  then have "Began w \<in> set (log s)" by (simp add: before_mem)
  from completed_before_begun[OF snd assms(4) wl cf this] br show ?thesis by (rule before_trans)
qed

lemma wait_writer_log:
  "log (run (running_writer @ Call_WaitForVar 0 # writer_done_wait_begun) init) =
   [Granted 0, Began 0, Completed 0, Granted 1, Began 1, Completed 1, Released 1]"
  by code_simp

lemma wait_released_after_writers_example:
  "(0::nat) < length (invs (run running_writer init))
   \<and> 0 \<in> set (inv_mutable (invs (run running_writer init) ! 0))
   \<and> Released (length (invs (run running_writer init)))
       \<in> set (log (run (running_writer @ Call_WaitForVar 0 # writer_done_wait_begun) init))
   \<and> before (Completed 0) (Released (length (invs (run running_writer init))))
       (log (run (running_writer @ Call_WaitForVar 0 # writer_done_wait_begun) init))"
  using wait_released_after_writers[OF refl refl refl, of 0 running_writer 0
      writer_done_wait_begun]
  by (simp add: wait_writer_before wait_writer_log)

end
